theory Spec2Isabelle
  imports Complex_Main "HOL-Library.Char_ord" "HOL-Library.List_Lexorder"
begin

section \<open>The incremental backup script AWS-BACKUP.py\<close>

text \<open>
  The script scans the configured source drives, hashes every candidate file, uploads the
  files whose content is new, keeps a ledger from absolute path to content hash in a JSON
  file, and exits with a status code. Everything the script reads from outside (the file
  system, the clock, the S3 client, signals) is a field of the record \<open>env\<close>; Python
  exceptions are values (\<open>Inl\<close> of a sum, or \<open>Some\<close> error text).
\<close>

subsection \<open>Data\<close>

type_synonym path = string
type_synonym ledger = "path \<rightharpoonup> string"

text \<open>The tree that \<open>os.walk\<close> enumerates: entries in the order \<open>scandir\<close> gives them.\<close>

datatype fsnode = FsFile string | FsDir string "fsnode list"

text \<open>
  One entry of the lists \<open>errors\<close> and \<open>run_manifest["errors"]\<close>:
  \<open>{"path": .., "error": ..}\<close> for a file, \<open>{"save_hash_db": ..}\<close> for the ledger save,
  \<open>{"fatal": ..}\<close> in the report built by the top-level handler.
\<close>

datatype error_entry =
    FileError path string
  | SaveHashDbError string
  | FatalError string

text \<open>
  What the loop body decided for one file. The script has no such object: each constructor
  stands for one branch of the loop body, and carries the values that the branch logs and
  appends to the manifest (\<open>run_manifest["uploaded"]\<close> with action \<open>uploaded\<close> or
  \<open>dry_upload\<close>, \<open>run_manifest["skipped_duplicates"]\<close>, \<open>run_manifest["unchanged"]\<close>,
  \<open>run_manifest["errors"]\<close>). The script passes paths and keys through
  \<open>mask_path_for_output\<close> and \<open>mask_s3_key\<close> before it stores them; the values here are
  the arguments of those calls.
\<close>

datatype outcome =
    Uploaded path string nat string
  | DryUploaded path string nat string
  | SkippedDuplicateContent path string
  | SkippedUnchanged path
  | Failed path string

fun outcome_path :: "outcome \<Rightarrow> path" where
  "outcome_path (Uploaded p k n h) = p"
| "outcome_path (DryUploaded p k n h) = p"
| "outcome_path (SkippedDuplicateContent p k) = p"
| "outcome_path (SkippedUnchanged p) = p"
| "outcome_path (Failed p e) = p"

fun is_Failed :: "outcome \<Rightarrow> bool" where
  "is_Failed (Failed p e) = True"
| "is_Failed _ = False"

fun is_upload :: "outcome \<Rightarrow> bool" where
  "is_upload (Uploaded p k n h) = True"
| "is_upload (DryUploaded p k n h) = True"
| "is_upload _ = False"

text \<open>Calls made on the S3 client.\<close>

datatype remote_call = UploadFile path string | ListObjectsV2

text \<open>One element of \<open>run_manifest["progress_samples"]\<close> (without its wall-clock time).\<close>

record progress_sample =
  ps_processed_files :: nat
  ps_elapsed_seconds :: real
  ps_estimated_total_seconds :: real
  ps_estimated_remaining_seconds :: real

text \<open>
  The outside world of one run. Python floats are modelled as reals.
  \<^item> \<open>SOURCE_DRIVES\<close>: the configured dict from source root to drive name, in insertion order;
  \<^item> \<open>path_exists\<close>, \<open>listdir\<close> (\<open>None\<close>: it raises), \<open>walk_entries\<close> (the directory tree
    below a path, \<open>None\<close> when \<open>os.walk\<close> cannot list it and yields nothing),
    \<open>path_join\<close>, \<open>abspath\<close>, \<open>normcase\<close>, \<open>normpath\<close>: the \<open>os\<close> and \<open>os.path\<close> functions;
  \<^item> \<open>getsize\<close>: \<open>os.path.getsize\<close>, \<open>None\<close> when it raises;
  \<^item> \<open>sha256_of\<close>: what \<open>compute_sha256\<close> does on the file, \<open>Inl\<close> the exception text;
  \<^item> \<open>relpath_for\<close>: the relative path found by the search for the matching source root;
  \<^item> \<open>utc_date_at\<close>: \<open>datetime.utcnow().strftime("%Y/%m/%d")\<close> in iteration \<open>idx\<close>;
  \<^item> \<open>upload_file\<close>: \<open>s3.upload_file\<close> on a path and key, \<open>Some\<close> the exception text;
  \<^item> \<open>list_objects\<close>: the sizes listed by the paginator, \<open>None\<close> when listing raises;
  \<^item> \<open>save_error\<close>: \<open>Some\<close> the exception text when writing the temporary file or
    \<open>os.replace\<close> raises;
  \<^item> \<open>signal_before\<close>: a termination signal was delivered before the check of iteration
    \<open>idx\<close>; \<open>late_signal\<close>: one was delivered after the loop;
  \<^item> \<open>elapsed_at\<close>: \<open>time.time() - start_time\<close> read in iteration \<open>idx\<close>;
  \<^item> \<open>fmt2f\<close>: the float format \<open>:.2f\<close>;
  \<^item> \<open>str_lower\<close>: the method \<open>str.lower\<close>.
\<close>

record env =
  SOURCE_DRIVES :: "(path \<times> string) list"
  path_exists :: "path \<Rightarrow> bool"
  listdir :: "path \<Rightarrow> string list option"
  walk_entries :: "path \<Rightarrow> fsnode list option"
  path_join :: "path \<Rightarrow> string \<Rightarrow> path"
  abspath :: "path \<Rightarrow> path"
  normcase :: "path \<Rightarrow> path"
  normpath :: "path \<Rightarrow> path"
  getsize :: "path \<Rightarrow> nat option"
  sha256_of :: "path \<Rightarrow> string + string"
  relpath_for :: "path \<Rightarrow> string"
  utc_date_at :: "nat \<Rightarrow> string"
  upload_file :: "path \<Rightarrow> string \<Rightarrow> string option"
  list_objects :: "nat list option"
  save_error :: "string option"
  signal_before :: "nat \<Rightarrow> bool"
  late_signal :: bool
  elapsed_at :: "nat \<Rightarrow> real"
  fmt2f :: "real \<Rightarrow> string"
  str_lower :: "string \<Rightarrow> string"

text \<open>The variables of \<open>backup_run\<close> that the loop changes, and the global \<open>_interrupted\<close>.\<close>

record run_state =
  interrupted :: bool
  updated_hashes :: ledger
  content_hash_to_s3key :: "string \<rightharpoonup> string"
  seen_paths :: "path set"
  processed_files :: nat
  processed_bytes :: nat
  uploaded_keys :: "string list"
  errors :: "error_entry list"
  outcomes :: "outcome list"
  progress_samples :: "progress_sample list"
  remote_calls :: "remote_call list"

subsection \<open>Strings and paths\<close>

definition backslash :: char where
  "backslash = CHR 0x5C"

text \<open>\<open>s.startswith(p)\<close> and \<open>part in s\<close>.\<close>

fun startswith :: "string \<Rightarrow> string \<Rightarrow> bool" where
  "startswith s [] = True"
| "startswith [] (p # ps) = False"
| "startswith (c # cs) (p # ps) = (c = p \<and> startswith cs ps)"

fun contains :: "string \<Rightarrow> string \<Rightarrow> bool" where
  "contains [] part = (part = [])"
| "contains (c # cs) part = (startswith (c # cs) part \<or> contains cs part)"

text \<open>The key has every backslash replaced by a slash.\<close>

definition replace_backslashes :: "string \<Rightarrow> string" where
  "replace_backslashes s = map (\<lambda>c. if c = backslash then CHR ''/'' else c) s"

definition ALLOWED_FOLDER_NAMES :: "string list" where
  "ALLOWED_FOLDER_NAMES = [''Pictures'', ''Videos'', ''Desktop'', ''Downloads'']"

definition EXPLICIT_ABSOLUTE_PATHS :: "path list" where
  "EXPLICIT_ABSOLUTE_PATHS = []"

text \<open>The raw string literals of the source: each begins with two backslashes.\<close>

definition EXCLUDE_PATH_PARTS :: "string list" where
  "EXCLUDE_PATH_PARTS =
     map (\<lambda>s. backslash # backslash # s)
       [''Windows'', ''Program Files'', ''Program Files (x86)'',
        ''System Volume Information'', ''$Recycle.Bin'', ''hiberfil.sys'',
        ''pagefile.sys'', ''SwapFile.sys'', ''Recovery'', ''PerfLogs'']"

definition PRICE_PER_GB_DEEP_ARCHIVE :: real where
  "PRICE_PER_GB_DEEP_ARCHIVE = 99 / 100000"

definition path_is_excluded :: "env \<Rightarrow> path \<Rightarrow> string list \<Rightarrow> bool" where
  "path_is_excluded E full_path exclude_parts =
     (let p = normcase E (abspath E full_path)
      in list_ex (\<lambda>part. contains (str_lower E p) (str_lower E part)) exclude_parts)"

subsection \<open>The scanner\<close>

definition build_allowed_paths_for_source ::
  "env \<Rightarrow> path \<Rightarrow> string list \<Rightarrow> path list \<Rightarrow> path list" where
  "build_allowed_paths_for_source E source_root allowed_folder_names explicit_paths =
     (let from_explicit =
            map (abspath E)
              (filter (\<lambda>p. startswith (normcase E (abspath E p)) (normcase E source_root))
                 explicit_paths);
          users_path = path_join E source_root ''Users'';
          from_users =
            (if path_exists E users_path then
               (case listdir E users_path of
                  None \<Rightarrow> []
                | Some usernames \<Rightarrow>
                    concat (map (\<lambda>username.
                      filter (path_exists E)
                        (map (path_join E (path_join E users_path username))
                           allowed_folder_names)) usernames))
             else []);
          from_root =
            filter (path_exists E) (map (path_join E source_root) allowed_folder_names);
          normalized =
            map (\<lambda>p. normpath E (abspath E p)) (from_explicit @ from_users @ from_root)
      in sort (remdups normalized))"

text \<open>
  The body of the \<open>os.walk\<close> loop for one directory, then the directories that the
  pruning \<open>dirs[:] = ...\<close> keeps, top-down.
\<close>

fun file_names :: "fsnode list \<Rightarrow> string list" where
  "file_names [] = []"
| "file_names (FsFile f # es) = f # file_names es"
| "file_names (FsDir d sub # es) = file_names es"

fun walk :: "env \<Rightarrow> string \<Rightarrow> path \<Rightarrow> fsnode list \<Rightarrow> (path \<times> string) list"
  and walk_dirs :: "env \<Rightarrow> string \<Rightarrow> path \<Rightarrow> fsnode list \<Rightarrow> (path \<times> string) list" where
  "walk E drive_name dirpath es =
     map (\<lambda>fname. (normcase E (abspath E (path_join E dirpath fname)), drive_name))
       (filter (\<lambda>fname. \<not> path_is_excluded E (path_join E dirpath fname) EXCLUDE_PATH_PARTS)
          (file_names es))
     @ walk_dirs E drive_name dirpath es"
| "walk_dirs E drive_name dirpath [] = []"
| "walk_dirs E drive_name dirpath (FsFile f # es) = walk_dirs E drive_name dirpath es"
| "walk_dirs E drive_name dirpath (FsDir d sub # es) =
     (if path_is_excluded E (path_join E dirpath d) EXCLUDE_PATH_PARTS then []
      else walk E drive_name (path_join E dirpath d) sub)
     @ walk_dirs E drive_name dirpath es"

definition os_walk :: "env \<Rightarrow> string \<Rightarrow> path \<Rightarrow> (path \<times> string) list" where
  "os_walk E drive_name root_allowed =
     (case walk_entries E root_allowed of
        None \<Rightarrow> []
      | Some es \<Rightarrow> walk E drive_name root_allowed es)"

text \<open>\<open>gather_candidate_files\<close>: the candidates (the map \<open>drive_present\<close> is only reported).\<close>

fun gather_sources :: "env \<Rightarrow> (path \<times> string) list \<Rightarrow> (path \<times> string) list" where
  "gather_sources E [] = []"
| "gather_sources E ((source, drive_name) # rest) =
     (if \<not> path_exists E source then gather_sources E rest
      else
        concat (map (os_walk E drive_name)
          (build_allowed_paths_for_source E source ALLOWED_FOLDER_NAMES
             EXPLICIT_ABSOLUTE_PATHS))
        @ gather_sources E rest)"

definition gather_candidate_files :: "env \<Rightarrow> (path \<times> string) list" where
  "gather_candidate_files E = gather_sources E (SOURCE_DRIVES E)"

text \<open>\<open>list(dict.fromkeys(xs))\<close>: a key is inserted when it is not there yet.\<close>

fun fromkeys_loop :: "'a list \<Rightarrow> 'a list \<Rightarrow> 'a list" where
  "fromkeys_loop ks [] = ks"
| "fromkeys_loop ks (x # xs) = fromkeys_loop (if x \<in> set ks then ks else ks @ [x]) xs"

definition dict_fromkeys :: "'a list \<Rightarrow> 'a list" where
  "dict_fromkeys xs = fromkeys_loop [] xs"

subsection \<open>The ledger file\<close>

text \<open>
  What \<open>json.load\<close> returns for \<open>backup_hashes.json\<close>: a dict (a JSON object), or another
  JSON value (a list, a string, a number, \<open>null\<close>). For a value that is no dict the model
  keeps what the script does with it: what \<open>dict(value)\<close> gives (the text of the exception
  it raises, or the dict it builds, as from a list of pairs) and the text of the
  \<open>AttributeError\<close> that \<open>value.get\<close> raises.
\<close>

datatype loaded = LoadedDict ledger | LoadedOther "string + ledger" string

text \<open>
  The content of the ledger file: \<open>None\<close> when the file is missing or does not parse.
  \<open>load_hash_db\<close> returns an empty dict then, and the parsed value otherwise, whatever it
  is. \<open>save_hash_db_atomic\<close> writes a temporary file and renames it over the ledger file;
  when either step raises, the ledger file is as it was and the exception text is
  returned.
\<close>

definition load_hash_db :: "loaded option \<Rightarrow> loaded" where
  "load_hash_db file = (case file of None \<Rightarrow> LoadedDict Map.empty | Some v \<Rightarrow> v)"

text \<open>\<open>dict(persisted_hashes)\<close> and \<open>persisted_hashes.get(abs_path)\<close>.\<close>

definition dict_of :: "loaded \<Rightarrow> string + ledger" where
  "dict_of v = (case v of LoadedDict d \<Rightarrow> Inr d | LoadedOther built get_error \<Rightarrow> built)"

definition persisted_get :: "loaded \<Rightarrow> path \<Rightarrow> string + string option" where
  "persisted_get v abs_path =
     (case v of LoadedDict d \<Rightarrow> Inr (d abs_path) | LoadedOther built get_error \<Rightarrow> Inl get_error)"

definition save_hash_db_atomic ::
  "env \<Rightarrow> ledger \<Rightarrow> loaded option \<Rightarrow> string option \<times> loaded option" where
  "save_hash_db_atomic E db file =
     (case save_error E of
        None \<Rightarrow> (None, Some (LoadedDict db))
      | Some e \<Rightarrow> (Some e, file))"

fun human_readable_loop :: "(real \<Rightarrow> string) \<Rightarrow> real \<Rightarrow> string list \<Rightarrow> string" where
  "human_readable_loop fmt bytes_count [] = fmt bytes_count @ '' TB''"
| "human_readable_loop fmt bytes_count (unit # units) =
     (if bytes_count < 1024 \<or> unit = ''TB'' then fmt bytes_count @ '' '' @ unit
      else human_readable_loop fmt (bytes_count / 1024) units)"

definition human_readable_size :: "env \<Rightarrow> real \<Rightarrow> string" where
  "human_readable_size E bytes_count =
     human_readable_loop (fmt2f E) bytes_count [''B'', ''KB'', ''MB'', ''GB'', ''TB'']"

subsection \<open>The upload engine\<close>

definition s3_key_for :: "env \<Rightarrow> nat \<Rightarrow> path \<Rightarrow> string \<Rightarrow> string" where
  "s3_key_for E idx abs_path drive_name =
     replace_backslashes
       (utc_date_at E idx @ ''/'' @ drive_name @ ''/'' @ relpath_for E abs_path)"

text \<open>The dry-run branch and the upload branch with its \<open>try\<close>/\<open>except\<close>.\<close>

definition transfer ::
  "env \<Rightarrow> bool \<Rightarrow> path \<Rightarrow> string \<Rightarrow> nat \<Rightarrow> string \<Rightarrow> run_state \<Rightarrow> run_state" where
  "transfer E dry_run abs_path s3_key file_size file_hash s =
     (if dry_run then
        s\<lparr>outcomes := outcomes s @ [DryUploaded abs_path s3_key file_size file_hash],
          content_hash_to_s3key := (content_hash_to_s3key s)(file_hash \<mapsto> s3_key),
          uploaded_keys := uploaded_keys s @ [s3_key],
          updated_hashes := (updated_hashes s)(abs_path \<mapsto> file_hash)\<rparr>
      else
        (let s' = s\<lparr>remote_calls := remote_calls s @ [UploadFile abs_path s3_key]\<rparr>
         in case upload_file E abs_path s3_key of
              None \<Rightarrow>
                s'\<lparr>uploaded_keys := uploaded_keys s' @ [s3_key],
                   content_hash_to_s3key := (content_hash_to_s3key s')(file_hash \<mapsto> s3_key),
                   outcomes := outcomes s' @ [Uploaded abs_path s3_key file_size file_hash],
                   updated_hashes := (updated_hashes s')(abs_path \<mapsto> file_hash)\<rparr>
            | Some e \<Rightarrow>
                s'\<lparr>errors := errors s' @ [FileError abs_path e],
                   outcomes := outcomes s' @ [Failed abs_path e]\<rparr>))"

text \<open>The end of the loop body: \<open>processed_bytes\<close> and the progress sample.\<close>

definition record_progress :: "env \<Rightarrow> nat \<Rightarrow> nat \<Rightarrow> nat \<Rightarrow> run_state \<Rightarrow> run_state" where
  "record_progress E total_files idx file_size s =
     (let s1 = s\<lparr>processed_bytes := processed_bytes s + file_size\<rparr>;
          elapsed = elapsed_at E idx;
          files_done = processed_files s1
      in if files_done > 0 then
           (let est_total =
                  (if total_files \<noteq> 0 then (elapsed / real files_done) * real total_files
                   else elapsed);
                est_remaining = max 0 (est_total - elapsed)
            in s1\<lparr>progress_samples := progress_samples s1 @
                   [\<lparr>ps_processed_files = files_done, ps_elapsed_seconds = elapsed,
                     ps_estimated_total_seconds = est_total,
                     ps_estimated_remaining_seconds = est_remaining\<rparr>]\<rparr>)
         else s1)"

text \<open>
  An exception that leaves \<open>backup_run\<close>: its text, and the calls made on the S3 client
  before it.
\<close>

type_synonym raised = "string \<times> remote_call list"

text \<open>
  The loop body after the interrupt check, for the candidate \<open>(abs_path, drive_name)\<close> of
  iteration \<open>idx\<close>. Each \<open>continue\<close> of the source is a branch that returns the state at
  once. The call \<open>persisted_hashes.get\<close> is outside every \<open>try\<close>: when it raises, the
  exception leaves the loop (\<open>Inl\<close>).
\<close>

definition process_file ::
  "env \<Rightarrow> bool \<Rightarrow> loaded \<Rightarrow> nat \<Rightarrow> nat \<Rightarrow> path \<Rightarrow> string \<Rightarrow> run_state \<Rightarrow> raised + run_state" where
  "process_file E dry_run persisted_hashes total_files idx abs_path drive_name s =
     (if abs_path \<in> seen_paths s then Inr s
      else
        (let s1 = s\<lparr>seen_paths := insert abs_path (seen_paths s),
                     processed_files := processed_files s + 1\<rparr>;
             file_size = (case getsize E abs_path of Some n \<Rightarrow> n | None \<Rightarrow> 0);
             s3_key = s3_key_for E idx abs_path drive_name
         in case sha256_of E abs_path of
              Inl e \<Rightarrow>
                Inr (s1\<lparr>errors := errors s1 @ [FileError abs_path e],
                        outcomes := outcomes s1 @ [Failed abs_path e]\<rparr>)
            | Inr file_hash \<Rightarrow>
                (case content_hash_to_s3key s1 file_hash of
                   Some existing_key \<Rightarrow>
                     Inr (s1\<lparr>outcomes := outcomes s1
                                 @ [SkippedDuplicateContent abs_path existing_key],
                             updated_hashes := (updated_hashes s1)(abs_path \<mapsto> file_hash)\<rparr>)
                 | None \<Rightarrow>
                     (case persisted_get persisted_hashes abs_path of
                        Inl e \<Rightarrow> Inl (e, remote_calls s1)
                      | Inr known \<Rightarrow>
                          if known = Some file_hash then
                            Inr (s1\<lparr>outcomes := outcomes s1 @ [SkippedUnchanged abs_path]\<rparr>)
                          else
                            Inr (record_progress E total_files idx file_size
                                   (transfer E dry_run abs_path s3_key file_size file_hash s1))))))"

text \<open>
  \<open>for idx, (abs_path, drive_name) in enumerate(candidates, start=1)\<close>. The flag
  \<open>_interrupted\<close> is read first; a signal delivered since the last check has set it.
\<close>

fun process_loop ::
  "env \<Rightarrow> bool \<Rightarrow> loaded \<Rightarrow> nat \<Rightarrow> nat \<Rightarrow> (path \<times> string) list \<Rightarrow> run_state
     \<Rightarrow> raised + run_state" where
  "process_loop E dry_run persisted_hashes total_files idx [] s = Inr s"
| "process_loop E dry_run persisted_hashes total_files idx ((abs_path, drive_name) # rest) s =
     (let s0 = s\<lparr>interrupted := interrupted s \<or> signal_before E idx\<rparr>
      in if interrupted s0 then Inr s0
         else
           (case process_file E dry_run persisted_hashes total_files idx abs_path drive_name s0 of
              Inl x \<Rightarrow> Inl x
            | Inr s1 \<Rightarrow> process_loop E dry_run persisted_hashes total_files (idx + 1) rest s1))"

text \<open>The variables as they are before the loop; \<open>updated_hashes\<close> is the copy of the ledger.\<close>

definition init_state :: "bool \<Rightarrow> ledger \<Rightarrow> run_state" where
  "init_state flag updated =
     \<lparr>interrupted = flag, updated_hashes = updated,
      content_hash_to_s3key = Map.empty, seen_paths = {}, processed_files = 0,
      processed_bytes = 0, uploaded_keys = [], errors = [], outcomes = [],
      progress_samples = [], remote_calls = []\<rparr>"

subsection \<open>The run and its report\<close>

text \<open>
  The fields of \<open>report\<close> that the exit code and the cost estimate use. In the source
  \<open>report["errors"]\<close> is the list \<open>run_manifest["errors"]\<close>, which holds the per-file
  errors and the error of the ledger save.
\<close>

record report =
  rep_errors :: "error_entry list"
  estimated_monthly_cost_usd :: real
  bucket_size_readable :: string
  rep_interrupted :: bool
  files_processed :: nat
  files_uploaded :: nat

text \<open>
  What a run that returns leaves behind: the report, the state of the loop at its end
  (with the errors of the whole run and the flag as read for the report), the ledger
  file, the arguments of the calls of \<open>save_hash_db_atomic\<close>, and the candidate list the
  loop ran over.
\<close>

record run_result =
  the_report :: report
  final :: run_state
  hash_db_file :: "loaded option"
  save_calls :: "ledger list"
  candidates :: "(path \<times> string) list"

text \<open>\<open>backup_run\<close> after the loop: the ledger save, the bucket listing and the report.\<close>

definition finish_run ::
  "env \<Rightarrow> bool \<Rightarrow> loaded option \<Rightarrow> (path \<times> string) list \<Rightarrow> run_state \<Rightarrow> run_result" where
  "finish_run E dry_run file cands s0 =
     (let s = s0\<lparr>interrupted := interrupted s0 \<or> late_signal E\<rparr>;
          (saves, s, file') =
            (if \<not> dry_run then
               (case save_hash_db_atomic E (updated_hashes s) file of
                  (None, f) \<Rightarrow> ([updated_hashes s], s, f)
                | (Some e, f) \<Rightarrow>
                    ([updated_hashes s], s\<lparr>errors := errors s @ [SaveHashDbError e]\<rparr>, f))
             else ([], s, file));
          (readable_size, estimated_cost, s) =
            (if \<not> dry_run then
               (let s' = s\<lparr>remote_calls := remote_calls s @ [ListObjectsV2]\<rparr>
                in case list_objects E of
                     Some sizes \<Rightarrow>
                       (let total_bytes_bucket = real (sum_list sizes);
                            total_gb = total_bytes_bucket / (1024 ^ 3)
                        in (human_readable_size E total_bytes_bucket,
                            total_gb * PRICE_PER_GB_DEEP_ARCHIVE, s'))
                   | None \<Rightarrow> (''unknown'', 0, s'))
             else (''unknown'', 0, s))
      in \<lparr>the_report =
            \<lparr>rep_errors = errors s,
             estimated_monthly_cost_usd = estimated_cost,
             bucket_size_readable = readable_size,
             rep_interrupted = interrupted s,
             files_processed = processed_files s,
             files_uploaded = length (uploaded_keys s)\<rparr>,
          final = s, hash_db_file = file', save_calls = saves, candidates = cands\<rparr>)"

text \<open>
  \<open>backup_run\<close>: \<open>Inr\<close> what it returns, \<open>Inl\<close> the exception that leaves it. The copy
  \<open>dict(persisted_hashes)\<close> is made first, outside every \<open>try\<close>, then the scan and the
  loop.
\<close>

definition backup_run :: "env \<Rightarrow> bool \<Rightarrow> bool \<Rightarrow> loaded option \<Rightarrow> raised + run_result" where
  "backup_run E dry_run flag file =
     (let persisted_hashes = load_hash_db file
      in case dict_of persisted_hashes of
           Inl e \<Rightarrow> Inl (e, [])
         | Inr updated \<Rightarrow>
             (let cands = dict_fromkeys (gather_candidate_files E);
                  total_files = length cands
              in case process_loop E dry_run persisted_hashes total_files 1 cands
                        (init_state flag updated) of
                   Inl x \<Rightarrow> Inl x
                 | Inr s \<Rightarrow> Inr (finish_run E dry_run file cands s)))"

text \<open>
  \<open>__main__\<close> after the pre-warning (\<open>flag\<close>: the pre-warning was interrupted). When
  \<open>backup_run\<close> raises, the handler builds a report of its own; the ledger file is then as
  it was. The exit code: \<open>sys.exit(2)\<close> when
  \<open>report.get("interrupted") or report.get("errors")\<close>, else \<open>sys.exit(0)\<close>.
\<close>

definition fatal_report :: "string \<Rightarrow> report" where
  "fatal_report e =
     \<lparr>rep_errors = [FatalError e], estimated_monthly_cost_usd = 0,
      bucket_size_readable = ''unknown'', rep_interrupted = True,
      files_processed = 0, files_uploaded = 0\<rparr>"

definition exit_code :: "report \<Rightarrow> nat" where
  "exit_code r = (if rep_interrupted r \<or> rep_errors r \<noteq> [] then 2 else 0)"

definition main_report :: "env \<Rightarrow> bool \<Rightarrow> bool \<Rightarrow> loaded option \<Rightarrow> report" where
  "main_report E dry_run flag file =
     (case backup_run E dry_run flag file of
        Inr r \<Rightarrow> the_report r
      | Inl (e, calls) \<Rightarrow> fatal_report e)"

definition main_exit_code :: "env \<Rightarrow> bool \<Rightarrow> bool \<Rightarrow> loaded option \<Rightarrow> nat" where
  "main_exit_code E dry_run flag file = exit_code (main_report E dry_run flag file)"

text \<open>The ledger file and the calls on the S3 client when the program is over.\<close>

definition main_hash_db_file :: "env \<Rightarrow> bool \<Rightarrow> bool \<Rightarrow> loaded option \<Rightarrow> loaded option" where
  "main_hash_db_file E dry_run flag file =
     (case backup_run E dry_run flag file of
        Inr r \<Rightarrow> hash_db_file r
      | Inl x \<Rightarrow> file)"

definition main_remote_calls :: "env \<Rightarrow> bool \<Rightarrow> bool \<Rightarrow> loaded option \<Rightarrow> remote_call list" where
  "main_remote_calls E dry_run flag file =
     (case backup_run E dry_run flag file of
        Inr r \<Rightarrow> remote_calls (final r)
      | Inl (e, calls) \<Rightarrow> calls)"

definition main_save_calls :: "env \<Rightarrow> bool \<Rightarrow> bool \<Rightarrow> loaded option \<Rightarrow> ledger list" where
  "main_save_calls E dry_run flag file =
     (case backup_run E dry_run flag file of
        Inr r \<Rightarrow> save_calls r
      | Inl x \<Rightarrow> [])"

subsection \<open>The loop on a loaded dict\<close>

text \<open>
  When the loaded ledger is a dict, the lookup in it cannot raise and the loop always
  returns a state. \<open>process_file_dict\<close> and \<open>process_loop_dict\<close> give this state; the lemmas
  \<open>process_file_LoadedDict\<close> and \<open>process_loop_LoadedDict\<close> show that \<open>process_file\<close> and
  \<open>process_loop\<close> return it, and the invariants of the loop are proved on them.
\<close>

definition process_file_dict ::
  "env \<Rightarrow> bool \<Rightarrow> ledger \<Rightarrow> nat \<Rightarrow> nat \<Rightarrow> path \<Rightarrow> string \<Rightarrow> run_state \<Rightarrow> run_state" where
  "process_file_dict E dry_run ph total_files idx abs_path drive_name s =
     (if abs_path \<in> seen_paths s then s
      else
        (let s1 = s\<lparr>seen_paths := insert abs_path (seen_paths s),
                     processed_files := processed_files s + 1\<rparr>;
             file_size = (case getsize E abs_path of Some n \<Rightarrow> n | None \<Rightarrow> 0);
             s3_key = s3_key_for E idx abs_path drive_name
         in case sha256_of E abs_path of
              Inl e \<Rightarrow>
                s1\<lparr>errors := errors s1 @ [FileError abs_path e],
                   outcomes := outcomes s1 @ [Failed abs_path e]\<rparr>
            | Inr file_hash \<Rightarrow>
                (case content_hash_to_s3key s1 file_hash of
                   Some existing_key \<Rightarrow>
                     s1\<lparr>outcomes := outcomes s1 @ [SkippedDuplicateContent abs_path existing_key],
                        updated_hashes := (updated_hashes s1)(abs_path \<mapsto> file_hash)\<rparr>
                 | None \<Rightarrow>
                     if ph abs_path = Some file_hash then
                       s1\<lparr>outcomes := outcomes s1 @ [SkippedUnchanged abs_path]\<rparr>
                     else
                       record_progress E total_files idx file_size
                         (transfer E dry_run abs_path s3_key file_size file_hash s1))))"

fun process_loop_dict ::
  "env \<Rightarrow> bool \<Rightarrow> ledger \<Rightarrow> nat \<Rightarrow> nat \<Rightarrow> (path \<times> string) list \<Rightarrow> run_state \<Rightarrow> run_state" where
  "process_loop_dict E dry_run ph total_files idx [] s = s"
| "process_loop_dict E dry_run ph total_files idx ((abs_path, drive_name) # rest) s =
     (let s0 = s\<lparr>interrupted := interrupted s \<or> signal_before E idx\<rparr>
      in if interrupted s0 then s0
         else process_loop_dict E dry_run ph total_files (idx + 1) rest
                (process_file_dict E dry_run ph total_files idx abs_path drive_name s0))"

subsection \<open>Invariants and example worlds\<close>

definition ledger_inv :: "ledger \<Rightarrow> run_state \<Rightarrow> bool" where
  "ledger_inv ph s \<longleftrightarrow>
     (\<forall>p. p \<notin> seen_paths s \<longrightarrow> updated_hashes s p = ph p)
   \<and> dom ph \<subseteq> dom (updated_hashes s)
   \<and> outcome_path ` set (outcomes s) = seen_paths s
   \<and> (\<forall>p e. Failed p e \<in> set (outcomes s) \<longrightarrow> updated_hashes s p = ph p)
   \<and> distinct (map outcome_path (outcomes s))"

text \<open>The error entries of the files recorded as failed, in their order.\<close>

fun failed_entries :: "outcome list \<Rightarrow> error_entry list" where
  "failed_entries [] = []"
| "failed_entries (Failed p e # xs) = FileError p e # failed_entries xs"
| "failed_entries (x # xs) = failed_entries xs"

text \<open>
  The error list holds exactly the recorded failures, and every failure of hashing or
  uploading is recorded.
\<close>

definition failure_inv :: "env \<Rightarrow> run_state \<Rightarrow> bool" where
  "failure_inv E s \<longleftrightarrow>
     (\<forall>p e. p \<in> seen_paths s \<longrightarrow> sha256_of E p = Inl e \<longrightarrow> Failed p e \<in> set (outcomes s))
   \<and> (\<forall>p k e. UploadFile p k \<in> set (remote_calls s) \<longrightarrow> upload_file E p k = Some e
         \<longrightarrow> Failed p e \<in> set (outcomes s))
   \<and> errors s = failed_entries (outcomes s)"

text \<open>While no error is recorded, the ledger holds the hash of every file seen.\<close>

definition clean_inv :: "env \<Rightarrow> run_state \<Rightarrow> bool" where
  "clean_inv E s \<longleftrightarrow>
     (errors s = [] \<longrightarrow> (\<forall>p \<in> seen_paths s. \<exists>h. sha256_of E p = Inr h \<and> updated_hashes s p = Some h))"

text \<open>A run over files that the ledger already knows only skips.\<close>

definition idle_inv :: "ledger \<Rightarrow> run_state \<Rightarrow> bool" where
  "idle_inv ph s \<longleftrightarrow>
     content_hash_to_s3key s = Map.empty
   \<and> (\<forall>x \<in> set (outcomes s). \<exists>p. x = SkippedUnchanged p)
   \<and> outcome_path ` set (outcomes s) = seen_paths s
   \<and> uploaded_keys s = [] \<and> remote_calls s = [] \<and> errors s = []
   \<and> updated_hashes s = ph"

text \<open>The loop of \<open>backup_run\<close> on the scanned candidates, from the dict \<open>d\<close>.\<close>

definition run_loop :: "env \<Rightarrow> bool \<Rightarrow> bool \<Rightarrow> ledger \<Rightarrow> run_state" where
  "run_loop E dry_run flag d =
     process_loop_dict E dry_run d
       (length (dict_fromkeys (gather_candidate_files E))) 1
       (dict_fromkeys (gather_candidate_files E))
       (init_state flag d)"

text \<open>
  The file reaches the dry-run or upload branch: it hashes, its content was not uploaded
  earlier in the run, and the ledger does not hold this hash for it.
\<close>

definition reaches_transfer :: "env \<Rightarrow> loaded \<Rightarrow> run_state \<Rightarrow> path \<Rightarrow> bool" where
  "reaches_transfer E persisted_hashes s abs_path =
     (case sha256_of E abs_path of
        Inl e \<Rightarrow> False
      | Inr file_hash \<Rightarrow>
          content_hash_to_s3key s file_hash = None
          \<and> (case persisted_get persisted_hashes abs_path of
                Inl e \<Rightarrow> False
              | Inr known \<Rightarrow> known \<noteq> Some file_hash))"

definition file_size_of :: "env \<Rightarrow> path \<Rightarrow> nat" where
  "file_size_of E abs_path = (case getsize E abs_path of Some n \<Rightarrow> n | None \<Rightarrow> 0)"

text \<open>Lower case on the ASCII letters, the \<open>str_lower\<close> of the example worlds.\<close>

definition lower_char :: "char \<Rightarrow> char" where
  "lower_char c =
     (let n = (of_char c :: nat) in if 65 \<le> n \<and> n \<le> 90 then char_of (n + 32) else c)"

definition ascii_lower :: "string \<Rightarrow> string" where
  "ascii_lower s = map lower_char s"

text \<open>
  An example world: one drive \<open>C\<close> named \<open>MAIN\<close> with a folder \<open>Pictures\<close> that lists the
  files \<open>b\<close> and \<open>a\<close>, in this order, with the same content.
\<close>

definition ex_env :: env where
  "ex_env =
     \<lparr>SOURCE_DRIVES = [(''C'', ''MAIN'')],
      path_exists = (\<lambda>p. p = ''C'' \<or> p = ''C/Pictures''),
      listdir = (\<lambda>p. None),
      walk_entries =
        (\<lambda>p. if p = ''C/Pictures'' then Some [FsFile ''b'', FsFile ''a''] else None),
      path_join = (\<lambda>a b. a @ ''/'' @ b),
      abspath = (\<lambda>p. p),
      normcase = (\<lambda>p. p),
      normpath = (\<lambda>p. p),
      getsize = (\<lambda>p. Some 10),
      sha256_of = (\<lambda>p. Inr ''H1''),
      relpath_for = (\<lambda>p. drop 2 p),
      utc_date_at = (\<lambda>i. ''2026/01/01''),
      upload_file = (\<lambda>p k. None),
      list_objects = Some [10],
      save_error = None,
      signal_before = (\<lambda>i. False),
      late_signal = False,
      elapsed_at = (\<lambda>i. 2 * real i),
      fmt2f = (\<lambda>x. ''?''),
      str_lower = ascii_lower\<rparr>"

text \<open>The same world where the upload of \<open>b\<close> raises.\<close>

definition ex_env_upload_fails :: env where
  "ex_env_upload_fails =
     ex_env\<lparr>upload_file := (\<lambda>p k. if p = ''C/Pictures/b'' then Some ''timeout'' else None)\<rparr>"

text \<open>The same world where \<open>b\<close> cannot be read and \<open>a\<close> has its own content.\<close>

definition ex_env_unreadable :: env where
  "ex_env_unreadable =
     ex_env\<lparr>sha256_of := (\<lambda>p. if p = ''C/Pictures/b'' then Inl ''denied'' else Inr ''H2'')\<rparr>"

text \<open>The same, and the upload of \<open>a\<close> raises.\<close>

definition ex_env_unreadable_upload_fails :: env where
  "ex_env_unreadable_upload_fails =
     ex_env_unreadable\<lparr>upload_file := (\<lambda>p k. Some ''timeout'')\<rparr>"

text \<open>The same world as \<open>ex_env\<close> where the ledger cannot be written.\<close>

definition ex_env_save_fails :: env where
  "ex_env_save_fails = ex_env\<lparr>save_error := Some ''disk full''\<rparr>"

text \<open>
  Two nested source roots with different drive names: \<open>C\<close> reaches the folder through
  \<open>C/Users/bob\<close>, and \<open>C/Users/bob\<close> is a source root of its own.
\<close>

definition ex_env_nested :: env where
  "ex_env_nested =
     ex_env\<lparr>SOURCE_DRIVES := [(''C'', ''MAIN''), (''C/Users/bob'', ''BOB'')],
       path_exists := (\<lambda>p. p = ''C'' \<or> p = ''C/Users'' \<or> p = ''C/Users/bob''
                          \<or> p = ''C/Users/bob/Pictures''),
       listdir := (\<lambda>p. if p = ''C/Users'' then Some [''bob''] else None),
       walk_entries :=
         (\<lambda>p. if p = ''C/Users/bob/Pictures'' then Some [FsFile ''a''] else None)\<rparr>"

text \<open>The ledger that knows both files of \<open>ex_env\<close>.\<close>

definition ex_ledger :: ledger where
  "ex_ledger = [''C/Pictures/b'' \<mapsto> ''H1'', ''C/Pictures/a'' \<mapsto> ''H1'']"

text \<open>The world of \<open>ex_env_unreadable\<close> with a signal delivered after the first file.\<close>

definition ex_env_interrupted :: env where
  "ex_env_interrupted = ex_env_unreadable\<lparr>signal_before := (\<lambda>i. i = 2)\<rparr>"

text \<open>A ledger file that holds \<open>null\<close>: \<open>dict(None)\<close> raises.\<close>

definition ex_null_file :: "loaded option" where
  "ex_null_file = Some (LoadedOther (Inl ''TypeError'') ''AttributeError'')"

section \<open>Invariants of the loop\<close>

lemmas pf_defs = process_file_dict_def transfer_def record_progress_def Let_def

lemma flag_update_cases:
  "s\<lparr>interrupted := interrupted s \<or> b\<rparr> = (if interrupted s \<or> b then s\<lparr>interrupted := True\<rparr> else s)"
  by (cases s) simp

lemma flag_False_id: "\<not> interrupted s \<Longrightarrow> s\<lparr>interrupted := False\<rparr> = s"
  by (cases s) simp

lemma flag_True_id: "interrupted s \<Longrightarrow> s\<lparr>interrupted := True\<rparr> = s"
  by (cases s) simp

lemma process_loop_dict_invariant:
  assumes "P s"
    and "\<And>t. P t \<Longrightarrow> P (t\<lparr>interrupted := True\<rparr>)"
    and "\<And>t idx p d. (p, d) \<in> set cs \<Longrightarrow> P t \<Longrightarrow> P (process_file_dict E dry ph tot idx p d t)"
  shows "P (process_loop_dict E dry ph tot idx cs s)"
  using assms(1) assms(3)
proof (induction cs arbitrary: idx s)
  case Nil
  then show ?case by simp
next
  case (Cons c cs)
  obtain p d where c: "c = (p, d)" by (cases c)
  define s0 where "s0 = s\<lparr>interrupted := interrupted s \<or> signal_before E idx\<rparr>"
  have 1: "P s0"
    unfolding s0_def flag_update_cases using Cons.prems(1) assms(2) by simp
  show ?case
  proof (cases "interrupted s0")
    case True
    have "process_loop_dict E dry ph tot idx (c # cs) s = s0"
      using True unfolding c s0_def by (simp add: Let_def)
    then show ?thesis using 1 by simp
  next
    case False
    have "process_loop_dict E dry ph tot idx (c # cs) s
          = process_loop_dict E dry ph tot (idx + 1) cs (process_file_dict E dry ph tot idx p d s0)"
      using False unfolding c s0_def by (simp add: Let_def)
    moreover have "P (process_file_dict E dry ph tot idx p d s0)"
      using 1 Cons.prems(2) [of p d s0 idx] by (simp add: c)
    ultimately show ?thesis using Cons.IH Cons.prems(2) by simp
  qed
qed

lemma process_file_dict_interrupted [simp]:
  "interrupted (process_file_dict E dry ph tot idx p d s) = interrupted s"
  by (simp add: pf_defs split: sum.splits option.splits)

lemma process_loop_dict_stays_interrupted:
  "interrupted s \<Longrightarrow> interrupted (process_loop_dict E dry ph tot idx cs s)"
  by (rule process_loop_dict_invariant [where P = interrupted]) simp_all

lemma process_loop_dict_Cons_uninterrupted:
  assumes "\<not> interrupted (process_loop_dict E dry ph tot idx ((p, d) # cs) s)"
  shows "process_loop_dict E dry ph tot idx ((p, d) # cs) s
         = process_loop_dict E dry ph tot (Suc idx) cs (process_file_dict E dry ph tot idx p d s)"
proof (cases "interrupted s \<or> signal_before E idx")
  case True
  then have "process_loop_dict E dry ph tot idx ((p, d) # cs) s = s\<lparr>interrupted := True\<rparr>"
    by (simp add: Let_def)
  with assms show ?thesis by simp
next
  case False
  then show ?thesis by (simp add: Let_def flag_False_id)
qed

lemma process_loop_dict_interrupted_id:
  assumes "interrupted s"
  shows "process_loop_dict E dry ph tot idx cs s = s"
proof (cases cs)
  case Nil
  then show ?thesis by simp
next
  case (Cons c cs')
  obtain p d where "c = (p, d)" by (cases c)
  with Cons assms show ?thesis by (simp add: Let_def flag_True_id)
qed

lemma process_loop_dict_append:
  "process_loop_dict E dry ph tot idx (xs @ ys) s
   = process_loop_dict E dry ph tot (idx + length xs) ys (process_loop_dict E dry ph tot idx xs s)"
proof (induction xs arbitrary: idx s)
  case Nil
  then show ?case by simp
next
  case (Cons c xs)
  obtain p d where c: "c = (p, d)" by (cases c)
  show ?case
  proof (cases "interrupted s \<or> signal_before E idx")
    case True
    then show ?thesis
      by (simp add: c Let_def process_loop_dict_interrupted_id)
  next
    case False
    then show ?thesis
      using Cons.IH [of "Suc idx"] by (simp add: c Let_def flag_False_id)
  qed
qed

lemma ledger_inv_init: "ledger_inv ph (init_state flag ph)"
  by (simp add: ledger_inv_def init_state_def)

lemma ledger_inv_flag: "ledger_inv ph s \<Longrightarrow> ledger_inv ph (s\<lparr>interrupted := b\<rparr>)"
  by (simp add: ledger_inv_def)

lemma ledger_inv_process_file_dict:
  assumes "ledger_inv ph s"
  shows "ledger_inv ph (process_file_dict E dry ph tot idx p d s)"
proof (cases "p \<in> seen_paths s")
  case True
  then show ?thesis using assms by (simp add: process_file_dict_def)
next
  case False
  let ?s' = "process_file_dict E dry ph tot idx p d s"
  have c1: "\<forall>q. q \<notin> seen_paths s \<longrightarrow> updated_hashes s q = ph q"
    and c2: "dom ph \<subseteq> dom (updated_hashes s)"
    and eq: "outcome_path ` set (outcomes s) = seen_paths s"
    and c4: "\<forall>q e. Failed q e \<in> set (outcomes s) \<longrightarrow> updated_hashes s q = ph q"
    and c5: "distinct (map outcome_path (outcomes s))"
    using assms unfolding ledger_inv_def by blast+
  have np: "p \<notin> outcome_path ` set (outcomes s)"
    using False eq by simp
  have nf: "\<forall>e. Failed p e \<notin> set (outcomes s)"
    using np by force
  have a: "\<forall>q. q \<notin> seen_paths ?s' \<longrightarrow> updated_hashes ?s' q = ph q"
    using False c1 by (auto simp: pf_defs split: sum.splits option.splits)
  have b: "dom ph \<subseteq> dom (updated_hashes ?s')"
    using False c2 by (auto simp: pf_defs split: sum.splits option.splits)
  have c: "outcome_path ` set (outcomes ?s') = seen_paths ?s'"
    using False eq by (auto simp: pf_defs split: sum.splits option.splits)
  have d: "\<forall>q e. Failed q e \<in> set (outcomes ?s') \<longrightarrow> updated_hashes ?s' q = ph q"
    using False c1 c4 nf by (auto simp: pf_defs split: sum.splits option.splits)
  have e: "distinct (map outcome_path (outcomes ?s'))"
    using False c5 np by (auto simp: pf_defs split: sum.splits option.splits)
  show ?thesis
    unfolding ledger_inv_def using a b c d e by blast
qed

lemma ledger_inv_process_loop_dict:
  "ledger_inv ph s \<Longrightarrow> ledger_inv ph (process_loop_dict E dry ph tot idx cs s)"
  by (rule process_loop_dict_invariant [where P = "ledger_inv ph"])
     (simp_all add: ledger_inv_flag ledger_inv_process_file_dict)

lemma finish_run_fields:
  "outcomes (final (finish_run E dry lf cs s)) = outcomes s"
  "updated_hashes (final (finish_run E dry lf cs s)) = updated_hashes s"
  "seen_paths (final (finish_run E dry lf cs s)) = seen_paths s"
  "uploaded_keys (final (finish_run E dry lf cs s)) = uploaded_keys s"
  "progress_samples (final (finish_run E dry lf cs s)) = progress_samples s"
  "processed_files (final (finish_run E dry lf cs s)) = processed_files s"
  "interrupted (final (finish_run E dry lf cs s)) = (interrupted s \<or> late_signal E)"
  "remote_calls (final (finish_run E dry lf cs s))
     = remote_calls s @ (if dry then [] else [ListObjectsV2])"
  "errors (final (finish_run E dry lf cs s))
     = errors s
       @ (if dry then [] else case save_error E of None \<Rightarrow> [] | Some e \<Rightarrow> [SaveHashDbError e])"
  "candidates (finish_run E dry lf cs s) = cs"
  by (simp_all add: finish_run_def Let_def save_hash_db_atomic_def split: option.splits)

lemma finish_run_report:
  "rep_errors (the_report (finish_run E dry lf cs s)) = errors (final (finish_run E dry lf cs s))"
  "rep_interrupted (the_report (finish_run E dry lf cs s))
     = interrupted (final (finish_run E dry lf cs s))"
  "bucket_size_readable (the_report (finish_run E True lf cs s)) = ''unknown''"
  "estimated_monthly_cost_usd (the_report (finish_run E True lf cs s)) = 0"
  by (simp_all add: finish_run_def Let_def save_hash_db_atomic_def split: option.splits)

lemma finish_run_file:
  "hash_db_file (finish_run E dry lf cs s)
     = (if dry then lf
        else case save_error E of None \<Rightarrow> Some (LoadedDict (updated_hashes s))
             | Some e \<Rightarrow> lf)"
  "save_calls (finish_run E dry lf cs s) = (if dry then [] else [updated_hashes s])"
  by (simp_all add: finish_run_def Let_def save_hash_db_atomic_def split: option.splits)

lemma process_file_dict_dry_remote_calls:
  "remote_calls (process_file_dict E True ph tot idx p d s) = remote_calls s"
  by (simp add: pf_defs split: sum.splits option.splits)

lemma process_loop_dict_dry_remote_calls:
  "remote_calls (process_loop_dict E True ph tot idx cs s) = remote_calls s"
  by (rule process_loop_dict_invariant [where P = "\<lambda>t. remote_calls t = remote_calls s"])
     (simp_all add: process_file_dict_dry_remote_calls)

subsection \<open>One step of the loop\<close>

lemma process_file_dict_seen:
  "p \<in> seen_paths s \<Longrightarrow> process_file_dict E dry ph tot idx p d s = s"
  by (simp add: process_file_dict_def)

lemma process_file_dict_seen_paths:
  "seen_paths (process_file_dict E dry ph tot idx p d s) = insert p (seen_paths s)"
  by (auto simp: pf_defs split: sum.splits option.splits)

lemma process_file_dict_frame:
  assumes "q \<noteq> p \<or> p \<in> seen_paths s"
  shows "(p \<in> seen_paths (process_file_dict E dry ph tot idx q d s) \<longleftrightarrow> p \<in> seen_paths s)
       \<and> updated_hashes (process_file_dict E dry ph tot idx q d s) p = updated_hashes s p
       \<and> filter (\<lambda>x. outcome_path x = p) (outcomes (process_file_dict E dry ph tot idx q d s))
           = filter (\<lambda>x. outcome_path x = p) (outcomes s)"
proof (cases "q \<in> seen_paths s")
  case True
  then show ?thesis by (simp add: process_file_dict_seen)
next
  case False
  with assms have "q \<noteq> p" by auto
  with False show ?thesis
    by (simp add: pf_defs split: sum.splits option.splits)
qed

lemma process_file_dict_key_stable:
  "content_hash_to_s3key s h = Some k
   \<Longrightarrow> content_hash_to_s3key (process_file_dict E dry ph tot idx p d s) h = Some k"
  by (auto simp: pf_defs split: sum.splits option.splits)

lemma process_file_dict_key_none:
  "content_hash_to_s3key s h = None \<Longrightarrow> sha256_of E p \<noteq> Inr h
   \<Longrightarrow> content_hash_to_s3key (process_file_dict E dry ph tot idx p d s) h = None"
  by (auto simp: pf_defs split: sum.splits option.splits)

lemma process_file_dict_hash_fails:
  assumes "p \<notin> seen_paths s" "sha256_of E p = Inl e"
  shows "outcomes (process_file_dict E dry ph tot idx p d s) = outcomes s @ [Failed p e]"
    and "errors (process_file_dict E dry ph tot idx p d s) = errors s @ [FileError p e]"
    and "updated_hashes (process_file_dict E dry ph tot idx p d s) = updated_hashes s"
    and "remote_calls (process_file_dict E dry ph tot idx p d s) = remote_calls s"
  using assms by (simp_all add: pf_defs)

lemma process_file_dict_duplicate:
  assumes "p \<notin> seen_paths s" "sha256_of E p = Inr h" "content_hash_to_s3key s h = Some k"
  shows "outcomes (process_file_dict E dry ph tot idx p d s)
           = outcomes s @ [SkippedDuplicateContent p k]"
    and "updated_hashes (process_file_dict E dry ph tot idx p d s) = (updated_hashes s)(p \<mapsto> h)"
    and "remote_calls (process_file_dict E dry ph tot idx p d s) = remote_calls s"
  using assms by (simp_all add: pf_defs)

lemma process_file_dict_unchanged:
  assumes "p \<notin> seen_paths s" "sha256_of E p = Inr h" "content_hash_to_s3key s h = None"
    "ph p = Some h"
  shows "outcomes (process_file_dict E dry ph tot idx p d s) = outcomes s @ [SkippedUnchanged p]"
    and "updated_hashes (process_file_dict E dry ph tot idx p d s) = updated_hashes s"
    and "remote_calls (process_file_dict E dry ph tot idx p d s) = remote_calls s"
    and "uploaded_keys (process_file_dict E dry ph tot idx p d s) = uploaded_keys s"
    and "errors (process_file_dict E dry ph tot idx p d s) = errors s"
    and "content_hash_to_s3key (process_file_dict E dry ph tot idx p d s) = content_hash_to_s3key s"
    and "progress_samples (process_file_dict E dry ph tot idx p d s) = progress_samples s"
  using assms by (simp_all add: pf_defs)

lemma process_file_dict_transferred:
  assumes "p \<notin> seen_paths s" "sha256_of E p = Inr h" "content_hash_to_s3key s h = None"
    "ph p \<noteq> Some h" "dry \<or> upload_file E p (s3_key_for E idx p d) = None"
  shows "outcomes (process_file_dict E dry ph tot idx p d s)
           = outcomes s @ [if dry then DryUploaded p (s3_key_for E idx p d) (file_size_of E p) h
                           else Uploaded p (s3_key_for E idx p d) (file_size_of E p) h]"
    and "updated_hashes (process_file_dict E dry ph tot idx p d s) = (updated_hashes s)(p \<mapsto> h)"
    and "content_hash_to_s3key (process_file_dict E dry ph tot idx p d s)
           = (content_hash_to_s3key s)(h \<mapsto> s3_key_for E idx p d)"
  using assms by (auto simp: pf_defs file_size_of_def)

lemma process_file_dict_upload_fails:
  assumes "p \<notin> seen_paths s" "sha256_of E p = Inr h" "content_hash_to_s3key s h = None"
    "ph p \<noteq> Some h" "\<not> dry" "upload_file E p (s3_key_for E idx p d) = Some e"
  shows "outcomes (process_file_dict E dry ph tot idx p d s) = outcomes s @ [Failed p e]"
    and "updated_hashes (process_file_dict E dry ph tot idx p d s) = updated_hashes s"
    and "errors (process_file_dict E dry ph tot idx p d s) = errors s @ [FileError p e]"
  using assms by (simp_all add: pf_defs)

lemma process_file_dict_one_outcome:
  assumes "p \<notin> seen_paths s"
  shows "\<exists>x. outcomes (process_file_dict E dry ph tot idx p d s) = outcomes s @ [x]
             \<and> outcome_path x = p"
  using assms by (auto simp: pf_defs split: sum.splits option.splits)

lemma process_file_dict_ok_outcome:
  assumes "p \<notin> seen_paths s" "sha256_of E p = Inr h" "dry \<or> (\<forall>k. upload_file E p k = None)"
  shows "\<exists>x. outcomes (process_file_dict E dry ph tot idx p d s) = outcomes s @ [x]
             \<and> \<not> is_Failed x"
  using assms by (auto simp: pf_defs split: sum.splits option.splits)

subsection \<open>The loop\<close>

lemma process_loop_dict_frame:
  assumes "p \<in> seen_paths s \<or> p \<notin> fst ` set cs"
  shows "(p \<in> seen_paths (process_loop_dict E dry ph tot idx cs s) \<longleftrightarrow> p \<in> seen_paths s)
       \<and> updated_hashes (process_loop_dict E dry ph tot idx cs s) p = updated_hashes s p
       \<and> filter (\<lambda>x. outcome_path x = p) (outcomes (process_loop_dict E dry ph tot idx cs s))
           = filter (\<lambda>x. outcome_path x = p) (outcomes s)"
proof -
  let ?P = "\<lambda>t. (p \<in> seen_paths t \<longleftrightarrow> p \<in> seen_paths s)
       \<and> updated_hashes t p = updated_hashes s p
       \<and> filter (\<lambda>x. outcome_path x = p) (outcomes t)
           = filter (\<lambda>x. outcome_path x = p) (outcomes s)"
  have step: "?P (process_file_dict E dry ph tot i q d t)"
    if "(q, d) \<in> set cs" "?P t" for t :: run_state and i q d
  proof -
    have "q \<noteq> p \<or> p \<in> seen_paths t"
      using assms that by force
    from process_file_dict_frame [OF this, of E dry ph tot i d] that(2)
    show ?thesis by simp
  qed
  have "?P (process_loop_dict E dry ph tot idx cs s)"
    by (rule process_loop_dict_invariant [where P = ?P]) (simp_all add: step)
  then show ?thesis .
qed

lemma process_loop_dict_key_stable:
  "content_hash_to_s3key s h = Some k
   \<Longrightarrow> content_hash_to_s3key (process_loop_dict E dry ph tot idx cs s) h = Some k"
  by (rule process_loop_dict_invariant [where P = "\<lambda>t. content_hash_to_s3key t h = Some k"])
     (simp_all add: process_file_dict_key_stable)

lemma process_loop_dict_key_none:
  assumes "content_hash_to_s3key s h = None" "\<forall>(p, d) \<in> set cs. sha256_of E p \<noteq> Inr h"
  shows "content_hash_to_s3key (process_loop_dict E dry ph tot idx cs s) h = None"
  by (rule process_loop_dict_invariant [where P = "\<lambda>t. content_hash_to_s3key t h = None"])
     (use assms in \<open>auto intro: process_file_dict_key_none\<close>)

lemma process_loop_dict_seen_mono:
  "seen_paths s \<subseteq> seen_paths (process_loop_dict E dry ph tot idx cs s)"
  by (rule process_loop_dict_invariant [where P = "\<lambda>t. seen_paths s \<subseteq> seen_paths t"])
     (auto simp: process_file_dict_seen_paths)

lemma process_loop_dict_seen_candidates:
  "seen_paths (process_loop_dict E dry ph tot idx cs s) \<subseteq> seen_paths s \<union> fst ` set cs"
  by (rule process_loop_dict_invariant [where P = "\<lambda>t. seen_paths t \<subseteq> seen_paths s \<union> fst ` set cs"])
     (force simp: process_file_dict_seen_paths)+

lemma process_loop_dict_all_seen:
  assumes "\<not> interrupted (process_loop_dict E dry ph tot idx cs s)"
  shows "fst ` set cs \<subseteq> seen_paths (process_loop_dict E dry ph tot idx cs s)"
  using assms
proof (induction cs arbitrary: idx s)
  case Nil
  then show ?case by simp
next
  case (Cons c cs)
  obtain p d where c: "c = (p, d)" by (cases c)
  let ?s' = "process_file_dict E dry ph tot idx p d s"
  have eq: "process_loop_dict E dry ph tot idx (c # cs) s = process_loop_dict E dry ph tot (Suc idx) cs ?s'"
    using Cons.prems unfolding c by (rule process_loop_dict_Cons_uninterrupted)
  have "p \<in> seen_paths ?s'" by (simp add: process_file_dict_seen_paths)
  then have "p \<in> seen_paths (process_loop_dict E dry ph tot (Suc idx) cs ?s')"
    using process_loop_dict_seen_mono by blast
  moreover have "fst ` set cs \<subseteq> seen_paths (process_loop_dict E dry ph tot (Suc idx) cs ?s')"
    using Cons.IH Cons.prems eq by simp
  ultimately show ?case unfolding eq by (simp add: c)
qed

subsection \<open>Failures\<close>

lemma failed_entries_append [simp]:
  "failed_entries (xs @ ys) = failed_entries xs @ failed_entries ys"
  by (induction xs rule: failed_entries.induct) simp_all

lemma failed_entries_iff:
  "FileError p e \<in> set (failed_entries xs) \<longleftrightarrow> Failed p e \<in> set xs"
  by (induction xs rule: failed_entries.induct) auto

lemma failed_entries_shape:
  "x \<in> set (failed_entries xs) \<Longrightarrow> \<exists>p e. x = FileError p e"
  by (induction xs rule: failed_entries.induct) auto


lemma failure_inv_flag: "failure_inv E s \<Longrightarrow> failure_inv E (s\<lparr>interrupted := b\<rparr>)"
  by (simp add: failure_inv_def)

lemma failure_inv_init: "failure_inv E (init_state flag ph)"
  by (simp add: failure_inv_def init_state_def)

lemma failure_inv_process_file_dict:
  assumes "failure_inv E s"
  shows "failure_inv E (process_file_dict E dry ph tot idx p d s)"
proof (cases "p \<in> seen_paths s")
  case True
  then show ?thesis using assms by (simp add: process_file_dict_seen)
next
  case False
  with assms show ?thesis
    unfolding failure_inv_def
    by (auto simp: pf_defs split: sum.splits option.splits)
qed

lemma failure_inv_process_loop_dict:
  assumes "failure_inv E s"
  shows "failure_inv E (process_loop_dict E dry ph tot idx cs s)"
proof (rule process_loop_dict_invariant [where P = "failure_inv E"])
  show "failure_inv E s" by (rule assms)
  show "failure_inv E (t\<lparr>interrupted := True\<rparr>)" if "failure_inv E t" for t
    using that by (rule failure_inv_flag)
  show "failure_inv E (process_file_dict E dry ph tot i p d t)" if "failure_inv E t" for t i p d
    using that by (rule failure_inv_process_file_dict)
qed

lemma process_loop_dict_outcome_count:
  assumes "\<not> interrupted (process_loop_dict E dry ph tot idx cs s)"
    and "distinct (map fst cs)"
    and "fst ` set cs \<inter> seen_paths s = {}"
    and "sha256_of E u = Inl e"
    and "\<forall>(p, d) \<in> set cs. p \<noteq> u \<longrightarrow>
           (\<exists>h. sha256_of E p = Inr h) \<and> (dry \<or> (\<forall>k. upload_file E p k = None))"
  shows "\<exists>new. outcomes (process_loop_dict E dry ph tot idx cs s) = outcomes s @ new
           \<and> length new = length cs
           \<and> filter is_Failed new = (if u \<in> fst ` set cs then [Failed u e] else [])"
  using assms(1,2,3,5)
proof (induction cs arbitrary: idx s)
  case Nil
  then show ?case by simp
next
  case (Cons c cs)
  obtain p d where c: "c = (p, d)" by (cases c)
  let ?s' = "process_file_dict E dry ph tot idx p d s"
  have eq: "process_loop_dict E dry ph tot idx (c # cs) s = process_loop_dict E dry ph tot (Suc idx) cs ?s'"
    using Cons.prems(1) unfolding c by (rule process_loop_dict_Cons_uninterrupted)
  have unseen: "p \<notin> seen_paths s" using Cons.prems(3) by (auto simp: c)
  have pcs: "p \<notin> fst ` set cs" using Cons.prems(2) by (auto simp: c)
  have "\<exists>new. outcomes (process_loop_dict E dry ph tot (Suc idx) cs ?s') = outcomes ?s' @ new
           \<and> length new = length cs
           \<and> filter is_Failed new = (if u \<in> fst ` set cs then [Failed u e] else [])"
  proof (rule Cons.IH)
    show "\<not> interrupted (process_loop_dict E dry ph tot (Suc idx) cs ?s')"
      using Cons.prems(1) eq by simp
    show "distinct (map fst cs)" using Cons.prems(2) by simp
    show "fst ` set cs \<inter> seen_paths ?s' = {}"
      using Cons.prems(3) pcs by (auto simp: process_file_dict_seen_paths)
    show "\<forall>(p, d) \<in> set cs. p \<noteq> u \<longrightarrow>
           (\<exists>h. sha256_of E p = Inr h) \<and> (dry \<or> (\<forall>k. upload_file E p k = None))"
      using Cons.prems(4) by simp
  qed
  then obtain new where new: "outcomes (process_loop_dict E dry ph tot (Suc idx) cs ?s') = outcomes ?s' @ new"
    "length new = length cs"
    "filter is_Failed new = (if u \<in> fst ` set cs then [Failed u e] else [])"
    by blast
  show ?case
  proof (cases "p = u")
    case True
    then have "outcomes ?s' = outcomes s @ [Failed u e]"
      using unseen assms(4) by (simp add: process_file_dict_hash_fails)
    moreover have "u \<notin> fst ` set cs" using pcs True by simp
    ultimately show ?thesis
      unfolding eq using new True by (simp add: c)
  next
    case False
    then obtain h where "sha256_of E p = Inr h" "dry \<or> (\<forall>k. upload_file E p k = None)"
      using Cons.prems(4) by (auto simp: c)
    then obtain x where "outcomes ?s' = outcomes s @ [x]" "\<not> is_Failed x"
      using process_file_dict_ok_outcome [OF unseen] by blast
    then show ?thesis
      unfolding eq using new False by (auto simp: c)
  qed
qed

subsection \<open>A clean run and the run after it\<close>

lemma process_file_dict_errors_mono:
  "errors (process_file_dict E dry ph tot idx p d s) = [] \<Longrightarrow> errors s = []"
  by (auto simp: pf_defs split: sum.splits option.splits if_splits)

lemma clean_inv_process_file_dict:
  assumes "ledger_inv ph s" "clean_inv E s"
  shows "clean_inv E (process_file_dict E dry ph tot idx p d s)"
proof (cases "p \<in> seen_paths s")
  case True
  then show ?thesis using assms by (simp add: process_file_dict_seen)
next
  case False
  then have "updated_hashes s p = ph p"
    using assms(1) by (simp add: ledger_inv_def)
  with False assms(2) show ?thesis
    unfolding clean_inv_def
    by (auto simp: pf_defs split: sum.splits option.splits if_splits)
qed

lemma clean_inv_flag: "clean_inv E s \<Longrightarrow> clean_inv E (s\<lparr>interrupted := b\<rparr>)"
  by (simp add: clean_inv_def)

lemma clean_inv_process_loop_dict:
  assumes "ledger_inv ph s" "clean_inv E s"
  shows "clean_inv E (process_loop_dict E dry ph tot idx cs s)"
proof -
  let ?P = "\<lambda>t. ledger_inv ph t \<and> clean_inv E t"
  have "?P (process_loop_dict E dry ph tot idx cs s)"
  proof (rule process_loop_dict_invariant [where P = ?P])
    show "?P s" using assms by simp
    show "?P (t\<lparr>interrupted := True\<rparr>)" if "?P t" for t
      using that by (simp add: ledger_inv_flag clean_inv_flag)
    show "?P (process_file_dict E dry ph tot i p d t)" if "?P t" for t i p d
      using that by (simp add: ledger_inv_process_file_dict clean_inv_process_file_dict)
  qed
  then show ?thesis by simp
qed

lemma idle_inv_process_file_dict:
  assumes "idle_inv ph s" "sha256_of E p = Inr h" "ph p = Some h"
  shows "idle_inv ph (process_file_dict E dry ph tot idx p d s)"
proof (cases "p \<in> seen_paths s")
  case True
  then show ?thesis using assms by (simp add: process_file_dict_seen)
next
  case False
  have k: "content_hash_to_s3key s h = None"
    using assms(1) by (simp add: idle_inv_def)
  note u = process_file_dict_unchanged
      [where p = p and s = s and E = E and h = h and ph = ph and dry = dry and tot = tot
         and idx = idx and d = d, OF False assms(2) k assms(3)]
  have a: "outcome_path ` set (outcomes s) = seen_paths s"
    and b: "\<forall>x \<in> set (outcomes s). \<exists>p. x = SkippedUnchanged p"
    and c: "uploaded_keys s = []" "remote_calls s = []" "errors s = []" "updated_hashes s = ph"
      "content_hash_to_s3key s = Map.empty"
    using assms(1) unfolding idle_inv_def by blast+
  have 1: "content_hash_to_s3key (process_file_dict E dry ph tot idx p d s) = Map.empty"
    unfolding u(6) by (rule c(5))
  have 2: "\<forall>x \<in> set (outcomes (process_file_dict E dry ph tot idx p d s)). \<exists>p. x = SkippedUnchanged p"
    unfolding u(1) using b by simp
  have 3: "outcome_path ` set (outcomes (process_file_dict E dry ph tot idx p d s))
           = seen_paths (process_file_dict E dry ph tot idx p d s)"
    unfolding u(1) process_file_dict_seen_paths using a by simp
  have 4: "uploaded_keys (process_file_dict E dry ph tot idx p d s) = []"
    "remote_calls (process_file_dict E dry ph tot idx p d s) = []"
    "errors (process_file_dict E dry ph tot idx p d s) = []"
    "updated_hashes (process_file_dict E dry ph tot idx p d s) = ph"
    unfolding u using c by simp_all
  show ?thesis
    unfolding idle_inv_def using 1 2 3 4 by blast
qed

lemma idle_inv_flag: "idle_inv ph s \<Longrightarrow> idle_inv ph (s\<lparr>interrupted := b\<rparr>)"
  by (simp add: idle_inv_def)

lemma idle_inv_process_loop_dict:
  assumes "idle_inv ph s" "\<forall>(p, d) \<in> set cs. \<exists>h. sha256_of E p = Inr h \<and> ph p = Some h"
  shows "idle_inv ph (process_loop_dict E dry ph tot idx cs s)"
proof (rule process_loop_dict_invariant [where P = "idle_inv ph"])
  show "idle_inv ph s" by (rule assms(1))
  show "idle_inv ph (t\<lparr>interrupted := True\<rparr>)" if "idle_inv ph t" for t
    using that by (rule idle_inv_flag)
  show "idle_inv ph (process_file_dict E dry ph tot i p d t)"
    if "(p, d) \<in> set cs" "idle_inv ph t" for t i p d
  proof -
    have "\<exists>h. sha256_of E p = Inr h \<and> ph p = Some h"
      using assms(2) that(1) by auto
    then obtain h where h: "sha256_of E p = Inr h" "ph p = Some h"
      by auto
    show ?thesis
      using that(2) h by (rule idle_inv_process_file_dict)
  qed
qed


subsection \<open>The candidate list\<close>








subsection \<open>The whole run\<close>

lemma ledger_inv_run_loop: "ledger_inv d (run_loop E dry flag d)"
  unfolding run_loop_def by (rule ledger_inv_process_loop_dict) (rule ledger_inv_init)

lemma failure_inv_run_loop: "failure_inv E (run_loop E dry flag d)"
  unfolding run_loop_def by (rule failure_inv_process_loop_dict) (rule failure_inv_init)

lemma clean_inv_run_loop: "clean_inv E (run_loop E dry flag d)"
  unfolding run_loop_def
proof (rule clean_inv_process_loop_dict)
  show "ledger_inv d (init_state flag d)"
    by (rule ledger_inv_init)
  show "clean_inv E (init_state flag d)"
    by (simp add: clean_inv_def init_state_def)
qed

lemma seen_paths_run_loop:
  "seen_paths (run_loop E dry flag d) \<subseteq> fst ` set (dict_fromkeys (gather_candidate_files E))"
  using process_loop_dict_seen_candidates
    [of E dry d "length (dict_fromkeys (gather_candidate_files E))" 1
        "dict_fromkeys (gather_candidate_files E)" "init_state flag d"]
  by (simp add: run_loop_def init_state_def)

subsection \<open>Two files with the same content\<close>

lemma process_loop_dict_first_and_duplicate:
  assumes ni: "\<not> interrupted (process_loop_dict E dry ph tot idx (xs @ (A, dA) # ys @ (B, dB) # zs) s)"
    and ab: "A \<noteq> B"
    and ha: "sha256_of E A = Inr H" and hb: "sha256_of E B = Inr H"
    and others: "\<forall>(p, d) \<in> set (xs @ ys). sha256_of E p \<noteq> Inr H"
    and s: "A \<notin> seen_paths s" "B \<notin> seen_paths s" "content_hash_to_s3key s H = None"
    and pa: "ph A \<noteq> Some H"
    and up: "dry \<or> upload_file E A (s3_key_for E (idx + length xs) A dA) = None"
  shows "filter (\<lambda>x. outcome_path x = A)
           (outcomes (process_loop_dict E dry ph tot idx (xs @ (A, dA) # ys @ (B, dB) # zs) s))
         = filter (\<lambda>x. outcome_path x = A) (outcomes s)
           @ [if dry then DryUploaded A (s3_key_for E (idx + length xs) A dA) (file_size_of E A) H
              else Uploaded A (s3_key_for E (idx + length xs) A dA) (file_size_of E A) H]"
    and "filter (\<lambda>x. outcome_path x = B)
           (outcomes (process_loop_dict E dry ph tot idx (xs @ (A, dA) # ys @ (B, dB) # zs) s))
         = filter (\<lambda>x. outcome_path x = B) (outcomes s)
           @ [SkippedDuplicateContent B (s3_key_for E (idx + length xs) A dA)]"
    and "updated_hashes (process_loop_dict E dry ph tot idx (xs @ (A, dA) # ys @ (B, dB) # zs) s) A = Some H"
    and "updated_hashes (process_loop_dict E dry ph tot idx (xs @ (A, dA) # ys @ (B, dB) # zs) s) B = Some H"
proof -
  let ?key = "s3_key_for E (idx + length xs) A dA"
  let ?fA = "\<lambda>t. filter (\<lambda>x. outcome_path x = A) (outcomes t)"
  let ?fB = "\<lambda>t. filter (\<lambda>x. outcome_path x = B) (outcomes t)"
  define s1 where "s1 = process_loop_dict E dry ph tot idx xs s"
  define s2 where "s2 = process_file_dict E dry ph tot (idx + length xs) A dA s1"
  define s3 where "s3 = process_loop_dict E dry ph tot (Suc (idx + length xs)) ys s2"
  define s4 where "s4 = process_file_dict E dry ph tot (Suc (idx + length xs) + length ys) B dB s3"
  define s5 where "s5 = process_loop_dict E dry ph tot (Suc (Suc (idx + length xs) + length ys)) zs s4"
  have e1: "process_loop_dict E dry ph tot idx (xs @ (A, dA) # ys @ (B, dB) # zs) s
            = process_loop_dict E dry ph tot (idx + length xs) ((A, dA) # ys @ (B, dB) # zs) s1"
    unfolding s1_def by (rule process_loop_dict_append)
  have e2: "process_loop_dict E dry ph tot (idx + length xs) ((A, dA) # ys @ (B, dB) # zs) s1
            = process_loop_dict E dry ph tot (Suc (idx + length xs)) (ys @ (B, dB) # zs) s2"
    unfolding s2_def using ni unfolding e1 by (rule process_loop_dict_Cons_uninterrupted)
  have e3: "process_loop_dict E dry ph tot (Suc (idx + length xs)) (ys @ (B, dB) # zs) s2
            = process_loop_dict E dry ph tot (Suc (idx + length xs) + length ys) ((B, dB) # zs) s3"
    unfolding s3_def by (rule process_loop_dict_append)
  have e4: "process_loop_dict E dry ph tot (Suc (idx + length xs) + length ys) ((B, dB) # zs) s3 = s5"
    unfolding s5_def s4_def using ni unfolding e1 e2 e3 by (rule process_loop_dict_Cons_uninterrupted)
  have fin: "process_loop_dict E dry ph tot idx (xs @ (A, dA) # ys @ (B, dB) # zs) s = s5"
    by (simp only: e1 e2 e3 e4)
  have Axs: "A \<notin> fst ` set xs" "A \<notin> fst ` set ys" "B \<notin> fst ` set xs" "B \<notin> fst ` set ys"
    using others ha hb by force+
  have oxs: "\<forall>(p, d) \<in> set xs. sha256_of E p \<noteq> Inr H"
    using others by auto
  \<comment> \<open>after the candidates before \<open>A\<close>\<close>
  have A1: "A \<notin> seen_paths s1" "updated_hashes s1 A = updated_hashes s A" "?fA s1 = ?fA s"
    using process_loop_dict_frame [where p = A and s = s and cs = xs and E = E and dry = dry
        and ph = ph and tot = tot and idx = idx] Axs(1) s(1)
    unfolding s1_def by simp_all
  have B1: "B \<notin> seen_paths s1" "?fB s1 = ?fB s"
    using process_loop_dict_frame [where p = B and s = s and cs = xs and E = E and dry = dry
        and ph = ph and tot = tot and idx = idx] Axs(3) s(2)
    unfolding s1_def by simp_all
  have K1: "content_hash_to_s3key s1 H = None"
    unfolding s1_def using s(3) oxs by (rule process_loop_dict_key_none)
  \<comment> \<open>after \<open>A\<close>\<close>
  note tA = process_file_dict_transferred
    [where p = A and s = s1 and E = E and h = H and ph = ph and dry = dry
       and idx = "idx + length xs" and d = dA and tot = tot, OF A1(1) ha K1 pa up]
  have A2: "A \<in> seen_paths s2" "updated_hashes s2 A = Some H"
    "?fA s2 = ?fA s @ [if dry then DryUploaded A ?key (file_size_of E A) H
                       else Uploaded A ?key (file_size_of E A) H]"
    unfolding s2_def using tA A1(3) by (simp_all add: process_file_dict_seen_paths)
  have B2: "B \<notin> seen_paths s2" "?fB s2 = ?fB s"
    using process_file_dict_frame [where p = B and q = A and s = s1 and E = E and dry = dry
        and ph = ph and tot = tot and idx = "idx + length xs" and d = dA] ab B1
    unfolding s2_def by simp_all
  have K2: "content_hash_to_s3key s2 H = Some ?key"
    unfolding s2_def using tA by simp
  \<comment> \<open>after the candidates between \<open>A\<close> and \<open>B\<close>\<close>
  have A3: "A \<in> seen_paths s3" "updated_hashes s3 A = Some H" "?fA s3 = ?fA s2"
    using process_loop_dict_frame [where p = A and s = s2 and cs = ys and E = E and dry = dry
        and ph = ph and tot = tot and idx = "Suc (idx + length xs)"] A2(1,2)
    unfolding s3_def by simp_all
  have B3: "B \<notin> seen_paths s3" "?fB s3 = ?fB s"
    using process_loop_dict_frame [where p = B and s = s2 and cs = ys and E = E and dry = dry
        and ph = ph and tot = tot and idx = "Suc (idx + length xs)"] Axs(4) B2
    unfolding s3_def by simp_all
  have K3: "content_hash_to_s3key s3 H = Some ?key"
    unfolding s3_def using K2 by (rule process_loop_dict_key_stable)
  \<comment> \<open>after \<open>B\<close>\<close>
  note tB = process_file_dict_duplicate
    [where p = B and s = s3 and E = E and h = H and k = ?key and ph = ph and dry = dry
       and idx = "Suc (idx + length xs) + length ys" and d = dB and tot = tot, OF B3(1) hb K3]
  have B4: "B \<in> seen_paths s4" "updated_hashes s4 B = Some H"
    "?fB s4 = ?fB s @ [SkippedDuplicateContent B ?key]"
    unfolding s4_def using tB B3(2) by (simp_all add: process_file_dict_seen_paths)
  have A4: "A \<in> seen_paths s4" "updated_hashes s4 A = Some H" "?fA s4 = ?fA s2"
    using process_file_dict_frame [where p = A and q = B and s = s3 and E = E and dry = dry
        and ph = ph and tot = tot and idx = "Suc (idx + length xs) + length ys" and d = dB]
      ab A3
    unfolding s4_def by simp_all
  \<comment> \<open>after the rest\<close>
  have A5: "updated_hashes s5 A = Some H" "?fA s5 = ?fA s2"
    using process_loop_dict_frame [where p = A and s = s4 and cs = zs and E = E and dry = dry
        and ph = ph and tot = tot and idx = "Suc (Suc (idx + length xs) + length ys)"] A4
    unfolding s5_def by simp_all
  have B5: "updated_hashes s5 B = Some H" "?fB s5 = ?fB s4"
    using process_loop_dict_frame [where p = B and s = s4 and cs = zs and E = E and dry = dry
        and ph = ph and tot = tot and idx = "Suc (Suc (idx + length xs) + length ys)"] B4
    unfolding s5_def by simp_all
  show "filter (\<lambda>x. outcome_path x = A)
           (outcomes (process_loop_dict E dry ph tot idx (xs @ (A, dA) # ys @ (B, dB) # zs) s))
         = filter (\<lambda>x. outcome_path x = A) (outcomes s)
           @ [if dry then DryUploaded A ?key (file_size_of E A) H
              else Uploaded A ?key (file_size_of E A) H]"
    unfolding fin using A5(2) A2(3) by simp
  show "filter (\<lambda>x. outcome_path x = B)
           (outcomes (process_loop_dict E dry ph tot idx (xs @ (A, dA) # ys @ (B, dB) # zs) s))
         = filter (\<lambda>x. outcome_path x = B) (outcomes s) @ [SkippedDuplicateContent B ?key]"
    unfolding fin using B5(2) B4(3) by simp
  show "updated_hashes (process_loop_dict E dry ph tot idx (xs @ (A, dA) # ys @ (B, dB) # zs) s) A = Some H"
    unfolding fin by (rule A5(1))
  show "updated_hashes (process_loop_dict E dry ph tot idx (xs @ (A, dA) # ys @ (B, dB) # zs) s) B = Some H"
    unfolding fin by (rule B5(1))
qed

subsection \<open>The example worlds\<close>

lemma walk_scanner_fields:
  assumes "path_join E' = path_join E" "abspath E' = abspath E" "normcase E' = normcase E"
    "str_lower E' = str_lower E"
  shows "walk E' dn dir es = walk E dn dir es"
    and "walk_dirs E' dn dir es = walk_dirs E dn dir es"
  using assms
proof (induction E dn dir es and E dn dir es rule: walk_walk_dirs.induct)
  case (1 E drive_name dirpath es)
  then show ?case by (simp add: path_is_excluded_def)
next
  case (2 E drive_name dirpath)
  then show ?case by simp
next
  case (3 E drive_name dirpath f es)
  then show ?case by simp
next
  case (4 E drive_name dirpath d sub es)
  then show ?case by (simp add: path_is_excluded_def)
qed

lemma gather_scanner_fields:
  assumes "SOURCE_DRIVES E' = SOURCE_DRIVES E" "path_exists E' = path_exists E"
    "listdir E' = listdir E" "walk_entries E' = walk_entries E"
    "path_join E' = path_join E" "abspath E' = abspath E" "normcase E' = normcase E"
    "normpath E' = normpath E" "str_lower E' = str_lower E"
  shows "gather_candidate_files E' = gather_candidate_files E"
proof -
  have w: "os_walk E' dn p = os_walk E dn p" for dn p
    by (simp only: os_walk_def assms(4) walk_scanner_fields(1) [OF assms(5,6,7,9)])
  have b: "build_allowed_paths_for_source E' src names expl
           = build_allowed_paths_for_source E src names expl" for src names expl
    unfolding build_allowed_paths_for_source_def assms(2,3,5,6,7,8) by (rule refl)
  have w': "os_walk E' dn = os_walk E dn" for dn
    by (rule ext) (rule w)
  have "gather_sources E' xs = gather_sources E xs" for xs
    by (induction xs) (auto simp: w' b assms(2))
  then show ?thesis
    by (simp add: gather_candidate_files_def assms(1))
qed


lemma gather_ex_env:
  "gather_candidate_files ex_env = [(''C/Pictures/b'', ''MAIN''), (''C/Pictures/a'', ''MAIN'')]"
  by code_simp

lemma gather_ex_env_nested:
  "gather_candidate_files ex_env_nested
     = [(''C/Users/bob/Pictures/a'', ''MAIN''), (''C/Users/bob/Pictures/a'', ''BOB'')]"
  by code_simp

lemma gather_ex_env_upload_fails:
  "gather_candidate_files ex_env_upload_fails = gather_candidate_files ex_env"
  by (rule gather_scanner_fields) (simp_all add: ex_env_upload_fails_def)

lemma gather_ex_env_unreadable:
  "gather_candidate_files ex_env_unreadable = gather_candidate_files ex_env"
  by (rule gather_scanner_fields) (simp_all add: ex_env_unreadable_def)

lemma gather_ex_env_unreadable_upload_fails:
  "gather_candidate_files ex_env_unreadable_upload_fails = gather_candidate_files ex_env"
  by (rule gather_scanner_fields)
     (simp_all add: ex_env_unreadable_upload_fails_def ex_env_unreadable_def)

lemma gather_ex_env_interrupted:
  "gather_candidate_files ex_env_interrupted = gather_candidate_files ex_env"
  by (rule gather_scanner_fields)
     (simp_all add: ex_env_interrupted_def ex_env_unreadable_def)

lemma gather_ex_env_save_fails:
  "gather_candidate_files ex_env_save_fails = gather_candidate_files ex_env"
  by (rule gather_scanner_fields) (simp_all add: ex_env_save_fails_def)

lemma candidates_ex_env:
  "dict_fromkeys (gather_candidate_files ex_env)
     = [(''C/Pictures/b'', ''MAIN''), (''C/Pictures/a'', ''MAIN'')]"
  "dict_fromkeys (gather_candidate_files ex_env_upload_fails)
     = [(''C/Pictures/b'', ''MAIN''), (''C/Pictures/a'', ''MAIN'')]"
  "dict_fromkeys (gather_candidate_files ex_env_unreadable)
     = [(''C/Pictures/b'', ''MAIN''), (''C/Pictures/a'', ''MAIN'')]"
  "dict_fromkeys (gather_candidate_files ex_env_unreadable_upload_fails)
     = [(''C/Pictures/b'', ''MAIN''), (''C/Pictures/a'', ''MAIN'')]"
  "dict_fromkeys (gather_candidate_files ex_env_save_fails)
     = [(''C/Pictures/b'', ''MAIN''), (''C/Pictures/a'', ''MAIN'')]"
  "dict_fromkeys (gather_candidate_files ex_env_interrupted)
     = [(''C/Pictures/b'', ''MAIN''), (''C/Pictures/a'', ''MAIN'')]"
  unfolding gather_ex_env_upload_fails gather_ex_env_unreadable
    gather_ex_env_unreadable_upload_fails gather_ex_env_save_fails gather_ex_env_interrupted
    gather_ex_env
  by (simp_all add: dict_fromkeys_def)

lemma candidates_ex_env_nested:
  "dict_fromkeys (gather_candidate_files ex_env_nested)
     = [(''C/Users/bob/Pictures/a'', ''MAIN''), (''C/Users/bob/Pictures/a'', ''BOB'')]"
  unfolding gather_ex_env_nested by (simp add: dict_fromkeys_def)

subsection \<open>The loop and the loaded value\<close>

lemma process_file_LoadedDict:
  "process_file E dry (LoadedDict ph) tot idx p d s
   = Inr (process_file_dict E dry ph tot idx p d s)"
  by (simp add: process_file_def process_file_dict_def persisted_get_def Let_def
        split: sum.splits option.splits)

lemma process_loop_LoadedDict:
  "process_loop E dry (LoadedDict ph) tot idx cs s
   = Inr (process_loop_dict E dry ph tot idx cs s)"
proof (induction cs arbitrary: idx s)
  case Nil
  then show ?case by simp
next
  case (Cons c cs)
  obtain p d where c: "c = (p, d)" by (cases c)
  show ?case
    unfolding c by (simp add: Let_def process_file_LoadedDict Cons.IH)
qed

lemma process_file_LoadedOther:
  assumes "process_file E dry (LoadedOther built ge) tot idx p d s = Inr t"
  shows "t = process_file_dict E dry ph tot idx p d s"
  using assms
  by (auto simp: process_file_def process_file_dict_def persisted_get_def Let_def
        split: sum.splits option.splits if_splits)

lemma process_loop_Cons_cases:
  "interrupted s \<or> signal_before E idx \<Longrightarrow>
     process_loop E dry L tot idx ((p, d) # cs) s = Inr (s\<lparr>interrupted := True\<rparr>)"
  "\<not> (interrupted s \<or> signal_before E idx) \<Longrightarrow>
     process_loop E dry L tot idx ((p, d) # cs) s
     = (case process_file E dry L tot idx p d s of
          Inl x \<Rightarrow> Inl x
        | Inr s1 \<Rightarrow> process_loop E dry L tot (idx + 1) cs s1)"
  by (simp_all add: Let_def flag_False_id)

lemma process_loop_dict_Cons_cases:
  "interrupted s \<or> signal_before E idx \<Longrightarrow>
     process_loop_dict E dry ph tot idx ((p, d) # cs) s = s\<lparr>interrupted := True\<rparr>"
  "\<not> (interrupted s \<or> signal_before E idx) \<Longrightarrow>
     process_loop_dict E dry ph tot idx ((p, d) # cs) s
     = process_loop_dict E dry ph tot (idx + 1) cs (process_file_dict E dry ph tot idx p d s)"
  by (simp_all add: Let_def flag_False_id)

lemma process_loop_LoadedOther:
  assumes "process_loop E dry (LoadedOther built ge) tot idx cs s = Inr t"
  shows "t = process_loop_dict E dry ph tot idx cs s"
  using assms
proof (induction cs arbitrary: idx s)
  case Nil
  then show ?case by simp
next
  case (Cons c cs)
  obtain p d where c: "c = (p, d)" by (cases c)
  show ?case
  proof (cases "interrupted s \<or> signal_before E idx")
    case True
    show ?thesis
      using Cons.prems unfolding c process_loop_Cons_cases(1) [OF True]
        process_loop_dict_Cons_cases(1) [OF True] by simp
  next
    case False
    obtain s1 where s1: "process_file E dry (LoadedOther built ge) tot idx p d s = Inr s1"
      and rest: "process_loop E dry (LoadedOther built ge) tot (idx + 1) cs s1 = Inr t"
      using Cons.prems unfolding c process_loop_Cons_cases(2) [OF False]
      by (auto split: sum.splits)
    have "s1 = process_file_dict E dry ph tot idx p d s"
      using s1 by (rule process_file_LoadedOther)
    moreover have "t = process_loop_dict E dry ph tot (idx + 1) cs s1"
      using rest by (rule Cons.IH)
    ultimately show ?thesis
      unfolding c process_loop_dict_Cons_cases(2) [OF False] by simp
  qed
qed

lemma process_loop_returns:
  assumes "dict_of L = Inr d0" "process_loop E dry L tot idx cs s = Inr t"
  shows "t = process_loop_dict E dry d0 tot idx cs s"
proof (cases L)
  case (LoadedDict ph)
  then show ?thesis
    using assms by (simp add: dict_of_def process_loop_LoadedDict)
next
  case (LoadedOther built ge)
  then show ?thesis
    using assms(2) process_loop_LoadedOther by blast
qed

lemma process_file_dry_calls:
  "process_file E True L tot idx p d s = Inr t \<Longrightarrow> remote_calls t = remote_calls s"
  "process_file E True L tot idx p d s = Inl (e, calls) \<Longrightarrow> calls = remote_calls s"
  by (auto simp: process_file_def transfer_def record_progress_def Let_def
        split: sum.splits option.splits if_splits)

lemma process_loop_dry_calls:
  "process_loop E True L tot idx cs s = Inr t \<Longrightarrow> remote_calls t = remote_calls s"
  "process_loop E True L tot idx cs s = Inl (e, calls) \<Longrightarrow> calls = remote_calls s"
proof (induction cs arbitrary: idx s)
  case Nil
  {
    case 1
    then show ?case by simp
  next
    case 2
    then show ?case by simp
  }
next
  case (Cons c cs)
  obtain p d where c: "c = (p, d)" by (cases c)
  {
    case 1
    show ?case
    proof (cases "interrupted s \<or> signal_before E idx")
      case True
      show ?thesis
        using 1 unfolding c process_loop_Cons_cases(1) [OF True] by auto
    next
      case False
      obtain s1 where s1: "process_file E True L tot idx p d s = Inr s1"
        and rest: "process_loop E True L tot (idx + 1) cs s1 = Inr t"
        using 1 unfolding c process_loop_Cons_cases(2) [OF False]
        by (auto split: sum.splits)
      show ?thesis
        using Cons.IH(1) [OF rest] process_file_dry_calls(1) [OF s1] by simp
    qed
  next
    case 2
    show ?case
    proof (cases "interrupted s \<or> signal_before E idx")
      case True
      show ?thesis
        using 2 unfolding c process_loop_Cons_cases(1) [OF True] by simp
    next
      case False
      show ?thesis
      proof (cases "process_file E True L tot idx p d s")
        case (Inl x)
        then have "process_file E True L tot idx p d s = Inl (e, calls)"
          using 2 unfolding c process_loop_Cons_cases(2) [OF False] by simp
        then show ?thesis by (rule process_file_dry_calls(2))
      next
        case (Inr s1)
        then have rest: "process_loop E True L tot (idx + 1) cs s1 = Inl (e, calls)"
          using 2 unfolding c process_loop_Cons_cases(2) [OF False] by simp
        show ?thesis
          using Cons.IH(2) [OF rest] process_file_dry_calls(1) [OF Inr] by simp
      qed
    qed
  }
qed


subsection \<open>What the run returns\<close>

lemma backup_run_Inr:
  assumes "backup_run E dry flag lf = Inr r"
  obtains d0 where "dict_of (load_hash_db lf) = Inr d0"
    and "r = finish_run E dry lf (dict_fromkeys (gather_candidate_files E)) (run_loop E dry flag d0)"
proof -
  obtain d0 where d0: "dict_of (load_hash_db lf) = Inr d0"
    using assms by (auto simp: backup_run_def Let_def split: sum.splits)
  obtain s where s: "process_loop E dry (load_hash_db lf)
        (length (dict_fromkeys (gather_candidate_files E))) 1
        (dict_fromkeys (gather_candidate_files E)) (init_state flag d0) = Inr s"
    and r: "r = finish_run E dry lf (dict_fromkeys (gather_candidate_files E)) s"
    using assms d0 by (auto simp: backup_run_def Let_def split: sum.splits)
  have "s = run_loop E dry flag d0"
    unfolding run_loop_def using d0 s by (rule process_loop_returns)
  then show ?thesis using that d0 r by simp
qed

lemma backup_run_LoadedDict:
  assumes "load_hash_db lf = LoadedDict d"
  shows "backup_run E dry flag lf
         = Inr (finish_run E dry lf (dict_fromkeys (gather_candidate_files E))
                  (run_loop E dry flag d))"
  by (simp add: backup_run_def assms dict_of_def process_loop_LoadedDict run_loop_def Let_def)

lemma backup_run_None:
  "backup_run E dry flag None
   = Inr (finish_run E dry None (dict_fromkeys (gather_candidate_files E))
            (run_loop E dry flag Map.empty))"
  by (rule backup_run_LoadedDict) (simp add: load_hash_db_def)

lemma backup_run_Some_dict:
  "backup_run E dry flag (Some (LoadedDict d))
   = Inr (finish_run E dry (Some (LoadedDict d)) (dict_fromkeys (gather_candidate_files E))
            (run_loop E dry flag d))"
  by (rule backup_run_LoadedDict) (simp add: load_hash_db_def)

lemma backup_run_Inl_dry:
  assumes "backup_run E True flag lf = Inl (e, calls)"
  shows "calls = []"
proof (cases "dict_of (load_hash_db lf)")
  case (Inl x)
  then show ?thesis using assms by (simp add: backup_run_def Let_def)
next
  case (Inr d0)
  then have "process_loop E True (load_hash_db lf)
        (length (dict_fromkeys (gather_candidate_files E))) 1
        (dict_fromkeys (gather_candidate_files E)) (init_state flag d0) = Inl (e, calls)"
    using assms by (auto simp: backup_run_def Let_def split: sum.splits)
  then have "calls = remote_calls (init_state flag d0)"
    by (rule process_loop_dry_calls(2))
  then show ?thesis by (simp add: init_state_def)
qed

lemma backup_run_null:
  "backup_run E dry flag ex_null_file = Inl (''TypeError'', [])"
  by (simp add: backup_run_def ex_null_file_def load_hash_db_def dict_of_def)

lemma saved_file_ex_env:
  "hash_db_file (projr (backup_run ex_env False flag None))
   = Some (LoadedDict (updated_hashes (run_loop ex_env False flag Map.empty)))"
  "hash_db_file (projr (backup_run ex_env_upload_fails False flag None))
   = Some (LoadedDict (updated_hashes (run_loop ex_env_upload_fails False flag Map.empty)))"
  by (simp_all add: backup_run_None finish_run_file ex_env_def ex_env_upload_fails_def)

lemmas ex_eval =
  saved_file_ex_env backup_run_None backup_run_Some_dict backup_run_null
  sum.sel sum.case sum.disc prod.case
  main_exit_code_def main_report_def main_hash_db_file_def main_remote_calls_def
  main_save_calls_def finish_run_fields finish_run_report finish_run_file run_loop_def
  candidates_ex_env candidates_ex_env_nested


section \<open>The claims\<close>

text \<open>
  C10. In dry-run mode the engine never calls the remote listing API (it makes no call on
  the S3 client at all, also when an exception ends the run), and the report that
  \<open>backup_run\<close> returns, like the one built after an exception, has
  \<open>bucket_size_readable\<close> equal to \<open>unknown\<close> and \<open>estimated_monthly_cost_usd\<close> equal to
  0, whatever the candidates are.
\<close>

theorem dry_run_never_lists_bucket:
  "main_remote_calls E True flag ledger_file = []
   \<and> bucket_size_readable (main_report E True flag ledger_file) = ''unknown''
   \<and> estimated_monthly_cost_usd (main_report E True flag ledger_file) = 0
   \<and> (\<forall>r. backup_run E True flag ledger_file = Inr r \<longrightarrow>
         remote_calls (final r) = []
         \<and> bucket_size_readable (the_report r) = ''unknown''
         \<and> estimated_monthly_cost_usd (the_report r) = 0)"
proof -
  have ret: "remote_calls (final r) = []
         \<and> bucket_size_readable (the_report r) = ''unknown''
         \<and> estimated_monthly_cost_usd (the_report r) = 0"
    if "backup_run E True flag ledger_file = Inr r" for r
  proof -
    from that obtain d0 where
      r: "r = finish_run E True ledger_file (dict_fromkeys (gather_candidate_files E))
                (run_loop E True flag d0)"
      by (rule backup_run_Inr)
    have "remote_calls (run_loop E True flag d0) = []"
      by (simp add: run_loop_def process_loop_dict_dry_remote_calls init_state_def)
    then show ?thesis
      unfolding r by (simp add: finish_run_fields finish_run_report)
  qed
  have main: "main_remote_calls E True flag ledger_file = []
   \<and> bucket_size_readable (main_report E True flag ledger_file) = ''unknown''
   \<and> estimated_monthly_cost_usd (main_report E True flag ledger_file) = 0"
  proof (cases "backup_run E True flag ledger_file")
    case (Inl x)
    obtain e calls where x: "x = (e, calls)" by (cases x)
    have "calls = []"
      using Inl unfolding x by (rule backup_run_Inl_dry)
    then show ?thesis
      using Inl x by (simp add: main_remote_calls_def main_report_def fatal_report_def)
  next
    case (Inr r)
    then show ?thesis
      using ret [OF Inr] by (simp add: main_remote_calls_def main_report_def)
  qed
  show ?thesis using ret main by blast
qed

theorem dry_run_never_lists_bucket_witness:
  "main_remote_calls ex_env True False None = []
   \<and> bucket_size_readable (main_report ex_env True False None) = ''unknown''
   \<and> estimated_monthly_cost_usd (main_report ex_env True False None) = 0
   \<and> remote_calls (final (projr (backup_run ex_env True False None))) = []
   \<and> length (outcomes (final (projr (backup_run ex_env True False None)))) = 2"
proof -
  have a: "length (outcomes (final (projr (backup_run ex_env True False None)))) = 2"
    unfolding ex_eval by code_simp
  have b: "backup_run ex_env True False None = Inr (projr (backup_run ex_env True False None))"
    by (simp add: backup_run_None)
  note t = dry_run_never_lists_bucket [of ex_env False None]
  have c: "remote_calls (final (projr (backup_run ex_env True False None))) = []"
    using t [THEN conjunct2, THEN conjunct2, THEN conjunct2] b by blast
  show ?thesis
    using a c t [THEN conjunct1] t [THEN conjunct2, THEN conjunct1]
      t [THEN conjunct2, THEN conjunct2, THEN conjunct1] by simp
qed




text \<open>
  C3. A candidate that is processed (its path was not seen before in the run), whose hash
  equals the hash that the loaded ledger holds for this path and was not uploaded earlier
  in the run, is recorded as unchanged; the working ledger is left as it is and no call
  is made on the S3 client (the list of calls, the uploaded keys and the errors are
  unchanged).
\<close>

theorem unchanged_file_is_skipped:
  assumes "abs_path \<notin> seen_paths s"
    and "sha256_of E abs_path = Inr file_hash"
    and "persisted_get persisted_hashes abs_path = Inr (Some file_hash)"
    and "content_hash_to_s3key s file_hash = None"
  shows "\<exists>s'. process_file E dry_run persisted_hashes total_files idx abs_path drive_name s = Inr s'
       \<and> outcomes s' = outcomes s @ [SkippedUnchanged abs_path]
       \<and> updated_hashes s' = updated_hashes s
       \<and> remote_calls s' = remote_calls s
       \<and> uploaded_keys s' = uploaded_keys s
       \<and> errors s' = errors s"
  using assms by (simp add: process_file_def Let_def)

theorem unchanged_file_is_skipped_witness:
  "outcomes (projr (process_file ex_env False (LoadedDict ex_ledger) 2 1 ''C/Pictures/b'' ''MAIN''
       (init_state False ex_ledger))) = [SkippedUnchanged ''C/Pictures/b'']
   \<and> updated_hashes (projr (process_file ex_env False (LoadedDict ex_ledger) 2 1 ''C/Pictures/b''
       ''MAIN'' (init_state False ex_ledger))) = ex_ledger
   \<and> remote_calls (projr (process_file ex_env False (LoadedDict ex_ledger) 2 1 ''C/Pictures/b''
       ''MAIN'' (init_state False ex_ledger))) = []"
proof -
  have "''C/Pictures/b'' \<notin> seen_paths (init_state False ex_ledger)"
    and "sha256_of ex_env ''C/Pictures/b'' = Inr ''H1''"
    and "persisted_get (LoadedDict ex_ledger) ''C/Pictures/b'' = Inr (Some ''H1'')"
    and "content_hash_to_s3key (init_state False ex_ledger) ''H1'' = None"
    by (simp_all add: init_state_def ex_env_def ex_ledger_def persisted_get_def)
  from unchanged_file_is_skipped
    [where abs_path = "''C/Pictures/b''" and s = "init_state False ex_ledger" and E = ex_env
       and file_hash = "''H1''" and persisted_hashes = "LoadedDict ex_ledger"
       and dry_run = False and total_files = 2 and idx = 1 and drive_name = "''MAIN''", OF this]
  obtain s' where "process_file ex_env False (LoadedDict ex_ledger) 2 1 ''C/Pictures/b'' ''MAIN''
       (init_state False ex_ledger) = Inr s'"
    and "outcomes s' = outcomes (init_state False ex_ledger) @ [SkippedUnchanged ''C/Pictures/b'']"
    and "updated_hashes s' = updated_hashes (init_state False ex_ledger)"
    and "remote_calls s' = remote_calls (init_state False ex_ledger)"
    by blast
  then show ?thesis by (simp add: init_state_def)
qed

text \<open>
  C9. A run with dry-run mode off that starts from a ledger file holding an object
  returns, and a path that is in the loaded ledger is in the ledger passed to \<open>save_hash_db_atomic\<close> and
  in the ledger file after the run; when the path was not visited in the run (in
  particular when it is not a candidate), its entry in the saved ledger is the loaded one.
\<close>

theorem ledger_entries_persist:
  assumes "load_hash_db ledger_file = LoadedDict db"
    and "p \<in> dom db"
  shows "\<exists>r. backup_run E False flag ledger_file = Inr r
       \<and> save_calls r = [updated_hashes (final r)]
       \<and> p \<in> dom (updated_hashes (final r))
       \<and> (\<exists>db'. load_hash_db (hash_db_file r) = LoadedDict db' \<and> p \<in> dom db')
       \<and> (p \<notin> seen_paths (final r) \<longrightarrow> updated_hashes (final r) p = db p)
       \<and> (p \<notin> fst ` set (candidates r) \<longrightarrow> updated_hashes (final r) p = db p)"
proof -
  let ?L = "run_loop E False flag db"
  let ?cs = "dict_fromkeys (gather_candidate_files E)"
  let ?r = "finish_run E False ledger_file ?cs ?L"
  have run: "backup_run E False flag ledger_file = Inr ?r"
    by (rule backup_run_LoadedDict [OF assms(1)])
  have inv: "ledger_inv db ?L" by (rule ledger_inv_run_loop)
  have 1: "p \<in> dom (updated_hashes ?L)"
    using inv assms(2) unfolding ledger_inv_def by blast
  have 2: "p \<notin> seen_paths ?L \<Longrightarrow> updated_hashes ?L p = db p"
    using inv unfolding ledger_inv_def by blast
  have 3: "p \<notin> fst ` set ?cs \<Longrightarrow> p \<notin> seen_paths ?L"
    using seen_paths_run_loop by blast
  have 4: "\<exists>db'. load_hash_db (hash_db_file ?r) = LoadedDict db' \<and> p \<in> dom db'"
    using 1 assms(1,2) unfolding finish_run_file
    by (cases "save_error E") (simp_all add: load_hash_db_def)
  have 5: "save_calls ?r = [updated_hashes (final ?r)]
       \<and> p \<in> dom (updated_hashes (final ?r))
       \<and> (\<exists>db'. load_hash_db (hash_db_file ?r) = LoadedDict db' \<and> p \<in> dom db')
       \<and> (p \<notin> seen_paths (final ?r) \<longrightarrow> updated_hashes (final ?r) p = db p)
       \<and> (p \<notin> fst ` set (candidates ?r) \<longrightarrow> updated_hashes (final ?r) p = db p)"
    using 1 2 3 4 by (simp add: finish_run_fields finish_run_file)
  show ?thesis
    by (rule exI [where x = ?r], rule conjI, rule run, rule 5)
qed

theorem ledger_entries_persist_witness:
  "save_calls (projr (backup_run ex_env_nested False False (Some (LoadedDict ex_ledger))))
     = [updated_hashes (final (projr (backup_run ex_env_nested False False
          (Some (LoadedDict ex_ledger)))))]
   \<and> ''C/Pictures/b'' \<in> dom (updated_hashes (final (projr (backup_run ex_env_nested False False
          (Some (LoadedDict ex_ledger))))))
   \<and> updated_hashes (final (projr (backup_run ex_env_nested False False
          (Some (LoadedDict ex_ledger))))) ''C/Pictures/b'' = Some ''H1''"
proof -
  let ?r = "projr (backup_run ex_env_nested False False (Some (LoadedDict ex_ledger)))"
  have l: "load_hash_db (Some (LoadedDict ex_ledger)) = LoadedDict ex_ledger"
    by (simp add: load_hash_db_def)
  have a: "''C/Pictures/b'' \<in> dom ex_ledger"
    by (simp add: ex_ledger_def)
  have b: "''C/Pictures/b'' \<notin> fst ` set (candidates ?r)"
    unfolding ex_eval by code_simp
  from ledger_entries_persist
      [where E = ex_env_nested and flag = False and ledger_file = "Some (LoadedDict ex_ledger)"
         and p = "''C/Pictures/b''" and db = ex_ledger, OF l a]
  obtain r where r: "backup_run ex_env_nested False False (Some (LoadedDict ex_ledger)) = Inr r"
    and s: "save_calls r = [updated_hashes (final r)]"
    and d: "''C/Pictures/b'' \<in> dom (updated_hashes (final r))"
    and k: "''C/Pictures/b'' \<notin> fst ` set (candidates r)
            \<longrightarrow> updated_hashes (final r) ''C/Pictures/b'' = ex_ledger ''C/Pictures/b''"
    by blast
  have e: "?r = r" unfolding r by simp
  show ?thesis
    using s d k b unfolding e by (simp add: ex_ledger_def)
qed

text \<open>
  C6 (as amended). The processing of a candidate returns unless the lookup in the loaded
  ledger raises. A processed candidate that reaches the dry-run or upload branch
  (uploaded, dry-uploaded, or failed upload) appends one progress sample: the count of
  files processed so far, the elapsed time, the estimate
  \<open>elapsed / processed_files * total_files\<close> (the elapsed time itself when
  \<open>total_files\<close> is 0) and the remaining time, not below 0. A candidate whose hashing
  fails or that is skipped as duplicate content or as unchanged appends no sample; its
  file is counted in \<open>processed_files\<close> all the same.
\<close>

theorem progress_sample_after_transfer:
  assumes "abs_path \<notin> seen_paths s"
  shows "(\<forall>s'. process_file E dry_run persisted_hashes total_files idx abs_path drive_name s
                = Inr s' \<longrightarrow>
          processed_files s' = processed_files s + 1
          \<and> progress_samples s' = progress_samples s @
              (if reaches_transfer E persisted_hashes s abs_path then
                 [\<lparr>ps_processed_files = processed_files s + 1,
                   ps_elapsed_seconds = elapsed_at E idx,
                   ps_estimated_total_seconds =
                     (if total_files \<noteq> 0
                      then elapsed_at E idx / real (processed_files s + 1) * real total_files
                      else elapsed_at E idx),
                   ps_estimated_remaining_seconds =
                     max 0 ((if total_files \<noteq> 0
                             then elapsed_at E idx / real (processed_files s + 1) * real total_files
                             else elapsed_at E idx) - elapsed_at E idx)\<rparr>]
               else []))
       \<and> ((\<forall>e. persisted_get persisted_hashes abs_path \<noteq> Inl e)
            \<longrightarrow> (\<exists>s'. process_file E dry_run persisted_hashes total_files idx abs_path
                        drive_name s = Inr s'))"
proof -
  have ret: "processed_files s' = processed_files s + 1
          \<and> progress_samples s' = progress_samples s @
              (if reaches_transfer E persisted_hashes s abs_path then
                 [\<lparr>ps_processed_files = processed_files s + 1,
                   ps_elapsed_seconds = elapsed_at E idx,
                   ps_estimated_total_seconds =
                     (if total_files \<noteq> 0
                      then elapsed_at E idx / real (processed_files s + 1) * real total_files
                      else elapsed_at E idx),
                   ps_estimated_remaining_seconds =
                     max 0 ((if total_files \<noteq> 0
                             then elapsed_at E idx / real (processed_files s + 1) * real total_files
                             else elapsed_at E idx) - elapsed_at E idx)\<rparr>]
               else [])"
    if "process_file E dry_run persisted_hashes total_files idx abs_path drive_name s = Inr s'"
    for s'
    using assms that
    by (auto simp: process_file_def transfer_def record_progress_def Let_def reaches_transfer_def
          split: sum.splits option.splits if_splits)
  have returns: "\<exists>s'. process_file E dry_run persisted_hashes total_files idx abs_path
                        drive_name s = Inr s'"
    if "\<forall>e. persisted_get persisted_hashes abs_path \<noteq> Inl e"
    using that
    by (auto simp: process_file_def Let_def split: sum.splits option.splits if_splits)
  show ?thesis
    apply (rule conjI)
     apply (rule allI, rule impI, erule ret)
    apply (rule impI, erule returns)
    done
qed

theorem progress_sample_after_transfer_witness:
  "progress_samples (projr (process_file ex_env False (LoadedDict Map.empty) 2 1
       ''C/Pictures/b'' ''MAIN'' (init_state False Map.empty)))
     = [\<lparr>ps_processed_files = 1, ps_elapsed_seconds = 2,
         ps_estimated_total_seconds = 4, ps_estimated_remaining_seconds = 2\<rparr>]
   \<and> progress_samples (projr (process_file ex_env False (LoadedDict ex_ledger) 2 1
       ''C/Pictures/b'' ''MAIN'' (init_state False ex_ledger))) = []"
proof -
  have a: "''C/Pictures/b'' \<notin> seen_paths (init_state False Map.empty)"
    and b: "''C/Pictures/b'' \<notin> seen_paths (init_state False ex_ledger)"
    by (simp_all add: init_state_def)
  have r1: "process_file ex_env False (LoadedDict Map.empty) 2 1 ''C/Pictures/b'' ''MAIN''
        (init_state False Map.empty)
      = Inr (projr (process_file ex_env False (LoadedDict Map.empty) 2 1 ''C/Pictures/b''
          ''MAIN'' (init_state False Map.empty)))"
    and r2: "process_file ex_env False (LoadedDict ex_ledger) 2 1 ''C/Pictures/b'' ''MAIN''
        (init_state False ex_ledger)
      = Inr (projr (process_file ex_env False (LoadedDict ex_ledger) 2 1 ''C/Pictures/b''
          ''MAIN'' (init_state False ex_ledger)))"
    by (simp_all add: process_file_LoadedDict)
  have c: "reaches_transfer ex_env (LoadedDict Map.empty) (init_state False Map.empty)
             ''C/Pictures/b''"
    and d: "\<not> reaches_transfer ex_env (LoadedDict ex_ledger) (init_state False ex_ledger)
             ''C/Pictures/b''"
    by (simp_all add: reaches_transfer_def ex_env_def init_state_def ex_ledger_def
          persisted_get_def)
  have e: "elapsed_at ex_env (Suc 0) = 2" "processed_files (init_state False Map.empty) = 0"
    "progress_samples (init_state False Map.empty) = []"
    "progress_samples (init_state False ex_ledger) = []"
    by (simp_all add: ex_env_def init_state_def)
  show ?thesis
    using progress_sample_after_transfer
        [where s = "init_state False Map.empty" and E = ex_env and dry_run = False
           and persisted_hashes = "LoadedDict Map.empty" and total_files = 2 and idx = 1
           and abs_path = "''C/Pictures/b''" and drive_name = "''MAIN''", OF a, THEN conjunct1,
         rule_format, OF r1]
      progress_sample_after_transfer
        [where s = "init_state False ex_ledger" and E = ex_env and dry_run = False
           and persisted_hashes = "LoadedDict ex_ledger" and total_files = 2 and idx = 1
           and abs_path = "''C/Pictures/b''" and drive_name = "''MAIN''", OF b, THEN conjunct1,
         rule_format, OF r2]
    by (simp add: c d e)
qed

text \<open>
  The claim C6 as stated fails: with the ledger that knows both files of \<open>ex_env\<close>, the
  run processes two files, skips both as unchanged and records no progress sample.
\<close>

theorem progress_counterexample:
  "isl (backup_run ex_env False False (Some (LoadedDict ex_ledger))) = False
   \<and> outcomes (final (projr (backup_run ex_env False False (Some (LoadedDict ex_ledger)))))
     = [SkippedUnchanged ''C/Pictures/b'', SkippedUnchanged ''C/Pictures/a'']
   \<and> processed_files (final (projr (backup_run ex_env False False (Some (LoadedDict ex_ledger)))))
     = 2
   \<and> progress_samples (final (projr (backup_run ex_env False False (Some (LoadedDict ex_ledger)))))
     = []"
  unfolding ex_eval by code_simp







text \<open>
  C4 (as amended). A run whose ledger file is missing, does not parse or holds an object
  returns. In every run that returns, a file recorded as failed has an entry in
  the error list and its ledger entry is the loaded one (neither added nor updated);
  every processed file whose hashing raises and every upload call that raises is
  recorded as failed. The loop goes on after a failure, of hashing or of upload: every
  processed file has exactly one outcome, and in a run that is not interrupted every
  candidate is processed, whatever failed before it. A run that is not interrupted, over
  \<open>N\<close> candidates with distinct paths of which exactly one cannot be hashed while the
  others hash and (with dry-run off) upload without error, records \<open>N\<close> outcomes,
  \<open>N - 1\<close> of them not failed.
\<close>

theorem failure_isolation:
  assumes "dict_of (load_hash_db ledger_file) = Inr d0"
  shows "(\<forall>r. backup_run E dry_run flag ledger_file = Inr r \<longrightarrow>
          (\<forall>p e. Failed p e \<in> set (outcomes (final r)) \<longrightarrow>
               FileError p e \<in> set (rep_errors (the_report r))
               \<and> updated_hashes (final r) p = d0 p)
          \<and> (\<forall>p e. p \<in> seen_paths (final r) \<longrightarrow> sha256_of E p = Inl e \<longrightarrow>
               Failed p e \<in> set (outcomes (final r)))
          \<and> (\<forall>p k e. UploadFile p k \<in> set (remote_calls (final r)) \<longrightarrow>
               upload_file E p k = Some e \<longrightarrow> Failed p e \<in> set (outcomes (final r)))
          \<and> outcome_path ` set (outcomes (final r)) = seen_paths (final r)
          \<and> distinct (map outcome_path (outcomes (final r)))
          \<and> (\<not> rep_interrupted (the_report r)
               \<longrightarrow> seen_paths (final r) = fst ` set (candidates r))
          \<and> (\<not> rep_interrupted (the_report r)
               \<and> distinct (map fst (candidates r))
               \<and> u \<in> fst ` set (candidates r)
               \<and> sha256_of E u = Inl err
               \<and> (\<forall>(p, d) \<in> set (candidates r). p \<noteq> u \<longrightarrow>
                     (\<exists>h. sha256_of E p = Inr h) \<and> (dry_run \<or> (\<forall>k. upload_file E p k = None)))
               \<longrightarrow> length (outcomes (final r)) = length (candidates r)
                 \<and> filter is_Failed (outcomes (final r)) = [Failed u err]
                 \<and> length (filter (\<lambda>x. \<not> is_Failed x) (outcomes (final r)))
                     = length (candidates r) - 1))
       \<and> (load_hash_db ledger_file = LoadedDict d0
            \<longrightarrow> (\<exists>r. backup_run E dry_run flag ledger_file = Inr r))"
proof -
  have ret: "(\<forall>p e. Failed p e \<in> set (outcomes (final r)) \<longrightarrow>
               FileError p e \<in> set (rep_errors (the_report r))
               \<and> updated_hashes (final r) p = d0 p)
          \<and> (\<forall>p e. p \<in> seen_paths (final r) \<longrightarrow> sha256_of E p = Inl e \<longrightarrow>
               Failed p e \<in> set (outcomes (final r)))
          \<and> (\<forall>p k e. UploadFile p k \<in> set (remote_calls (final r)) \<longrightarrow>
               upload_file E p k = Some e \<longrightarrow> Failed p e \<in> set (outcomes (final r)))
          \<and> outcome_path ` set (outcomes (final r)) = seen_paths (final r)
          \<and> distinct (map outcome_path (outcomes (final r)))
          \<and> (\<not> rep_interrupted (the_report r)
               \<longrightarrow> seen_paths (final r) = fst ` set (candidates r))
          \<and> (\<not> rep_interrupted (the_report r)
               \<and> distinct (map fst (candidates r))
               \<and> u \<in> fst ` set (candidates r)
               \<and> sha256_of E u = Inl err
               \<and> (\<forall>(p, d) \<in> set (candidates r). p \<noteq> u \<longrightarrow>
                     (\<exists>h. sha256_of E p = Inr h) \<and> (dry_run \<or> (\<forall>k. upload_file E p k = None)))
               \<longrightarrow> length (outcomes (final r)) = length (candidates r)
                 \<and> filter is_Failed (outcomes (final r)) = [Failed u err]
                 \<and> length (filter (\<lambda>x. \<not> is_Failed x) (outcomes (final r)))
                     = length (candidates r) - 1)"
    if run: "backup_run E dry_run flag ledger_file = Inr r" for r
  proof -
    let ?cs = "dict_fromkeys (gather_candidate_files E)"
    let ?L = "run_loop E dry_run flag d0"
    from run obtain d1 where d1: "dict_of (load_hash_db ledger_file) = Inr d1"
      and r1: "r = finish_run E dry_run ledger_file ?cs (run_loop E dry_run flag d1)"
      by (rule backup_run_Inr)
    have "d1 = d0" using d1 assms(1) by simp
    then have r: "r = finish_run E dry_run ledger_file ?cs ?L" using r1 by simp
    have finv: "failure_inv E ?L" by (rule failure_inv_run_loop)
    have linv: "ledger_inv d0 ?L" by (rule ledger_inv_run_loop)
    have errs: "errors ?L = failed_entries (outcomes ?L)"
      using finv unfolding failure_inv_def by blast
    have 1: "\<forall>p e. Failed p e \<in> set (outcomes (final r)) \<longrightarrow>
              FileError p e \<in> set (rep_errors (the_report r))
              \<and> updated_hashes (final r) p = d0 p"
    proof (intro allI impI)
      fix p e
      assume "Failed p e \<in> set (outcomes (final r))"
      then have f: "Failed p e \<in> set (outcomes ?L)"
        unfolding r by (simp add: finish_run_fields)
      then have "FileError p e \<in> set (errors ?L)"
        unfolding errs by (simp add: failed_entries_iff)
      then have a: "FileError p e \<in> set (rep_errors (the_report r))"
        unfolding r by (simp add: finish_run_report finish_run_fields)
      have "updated_hashes ?L p = d0 p"
        using linv f unfolding ledger_inv_def by blast
      then have b: "updated_hashes (final r) p = d0 p"
        unfolding r by (simp add: finish_run_fields)
      show "FileError p e \<in> set (rep_errors (the_report r))
              \<and> updated_hashes (final r) p = d0 p"
        using a b by (rule conjI)
    qed
    have 2: "\<forall>p e. p \<in> seen_paths (final r) \<longrightarrow> sha256_of E p = Inl e \<longrightarrow>
              Failed p e \<in> set (outcomes (final r))"
      using finv unfolding r failure_inv_def by (simp add: finish_run_fields)
    have 3: "\<forall>p k e. UploadFile p k \<in> set (remote_calls (final r)) \<longrightarrow>
              upload_file E p k = Some e \<longrightarrow> Failed p e \<in> set (outcomes (final r))"
      using finv unfolding r failure_inv_def by (simp add: finish_run_fields)
    have 4: "outcome_path ` set (outcomes (final r)) = seen_paths (final r)"
      using linv unfolding r ledger_inv_def by (simp add: finish_run_fields)
    have 5: "distinct (map outcome_path (outcomes (final r)))"
      using linv unfolding r ledger_inv_def by (simp add: finish_run_fields)
    have ni: "\<not> interrupted ?L" if "\<not> rep_interrupted (the_report r)"
      using that unfolding r by (simp add: finish_run_report finish_run_fields)
    have cs: "candidates r = ?cs" unfolding r by (simp add: finish_run_fields)
    have 6: "seen_paths (final r) = fst ` set (candidates r)"
      if h: "\<not> rep_interrupted (the_report r)"
    proof -
      have "\<not> interrupted (process_loop_dict E dry_run d0 (length ?cs) 1 ?cs (init_state flag d0))"
        using ni [OF h] by (simp add: run_loop_def)
      then have "fst ` set ?cs
          \<subseteq> seen_paths (process_loop_dict E dry_run d0 (length ?cs) 1 ?cs (init_state flag d0))"
        by (rule process_loop_dict_all_seen)
      then have a: "fst ` set ?cs \<subseteq> seen_paths ?L" by (simp add: run_loop_def)
      have b: "seen_paths ?L \<subseteq> fst ` set ?cs" by (rule seen_paths_run_loop)
      have "seen_paths ?L = fst ` set ?cs" using a b by (rule subset_antisym [rotated])
      then show ?thesis unfolding r by (simp add: finish_run_fields)
    qed
    have 7: "length (outcomes (final r)) = length (candidates r)
                \<and> filter is_Failed (outcomes (final r)) = [Failed u err]
                \<and> length (filter (\<lambda>x. \<not> is_Failed x) (outcomes (final r)))
                    = length (candidates r) - 1"
      if h: "\<not> rep_interrupted (the_report r)" "distinct (map fst (candidates r))"
        "u \<in> fst ` set (candidates r)" "sha256_of E u = Inl err"
        "\<forall>(p, d) \<in> set (candidates r). p \<noteq> u \<longrightarrow>
            (\<exists>h. sha256_of E p = Inr h) \<and> (dry_run \<or> (\<forall>k. upload_file E p k = None))"
    proof -
      have "\<exists>new. outcomes ?L = outcomes (init_state flag d0) @ new
             \<and> length new = length ?cs
             \<and> filter is_Failed new = (if u \<in> fst ` set ?cs then [Failed u err] else [])"
        unfolding run_loop_def
      proof (rule process_loop_dict_outcome_count)
        show "\<not> interrupted (process_loop_dict E dry_run d0 (length ?cs) 1 ?cs
                  (init_state flag d0))"
          using ni [OF h(1)] by (simp add: run_loop_def)
        show "distinct (map fst ?cs)" using h(2) cs by simp
        show "fst ` set ?cs \<inter> seen_paths (init_state flag d0) = {}"
          by (simp add: init_state_def)
        show "sha256_of E u = Inl err" by (rule h(4))
        show "\<forall>(p, d) \<in> set ?cs. p \<noteq> u \<longrightarrow>
            (\<exists>h. sha256_of E p = Inr h) \<and> (dry_run \<or> (\<forall>k. upload_file E p k = None))"
          using h(5) cs by simp
      qed
      then obtain new where new: "outcomes ?L = new" "length new = length ?cs"
        "filter is_Failed new = [Failed u err]"
        using h(3) cs by (auto simp: init_state_def)
      have "length (filter is_Failed new) + length (filter (\<lambda>x. \<not> is_Failed x) new) = length new"
        by (rule sum_length_filter_compl)
      then have "length (filter (\<lambda>x. \<not> is_Failed x) new) = length ?cs - 1"
        using new(2,3) by simp
      then show ?thesis
        using new cs unfolding r by (simp add: finish_run_fields)
    qed
    have seven: "\<not> rep_interrupted (the_report r)
              \<and> distinct (map fst (candidates r))
              \<and> u \<in> fst ` set (candidates r)
              \<and> sha256_of E u = Inl err
              \<and> (\<forall>(p, d) \<in> set (candidates r). p \<noteq> u \<longrightarrow>
                    (\<exists>h. sha256_of E p = Inr h) \<and> (dry_run \<or> (\<forall>k. upload_file E p k = None)))
              \<longrightarrow> length (outcomes (final r)) = length (candidates r)
                \<and> filter is_Failed (outcomes (final r)) = [Failed u err]
                \<and> length (filter (\<lambda>x. \<not> is_Failed x) (outcomes (final r)))
                    = length (candidates r) - 1"
      apply (rule impI)
      apply (elim conjE)
      apply (rule 7)
          apply assumption+
      done
    have six: "\<not> rep_interrupted (the_report r)
              \<longrightarrow> seen_paths (final r) = fst ` set (candidates r)"
      by (rule impI) (rule 6)
    show ?thesis
      by (rule conjI, rule 1, rule conjI, rule 2, rule conjI, rule 3, rule conjI, rule 4,
          rule conjI, rule 5, rule conjI, rule six, rule seven)
  qed
  have returns: "\<exists>r. backup_run E dry_run flag ledger_file = Inr r"
    if "load_hash_db ledger_file = LoadedDict d0"
    using backup_run_LoadedDict [OF that, of E dry_run flag] by (rule exI)
  show ?thesis
    apply (rule conjI)
     apply (rule allI, rule impI, erule ret)
    apply (rule impI, erule returns)
    done
qed

theorem failure_isolation_witness:
  "length (outcomes (final (projr (backup_run ex_env_unreadable False False None)))) = 2
   \<and> filter is_Failed (outcomes (final (projr (backup_run ex_env_unreadable False False None))))
       = [Failed ''C/Pictures/b'' ''denied'']
   \<and> length (filter (\<lambda>x. \<not> is_Failed x)
         (outcomes (final (projr (backup_run ex_env_unreadable False False None))))) = 1
   \<and> updated_hashes (final (projr (backup_run ex_env_unreadable False False None)))
         ''C/Pictures/b'' = None
   \<and> seen_paths (final (projr (backup_run ex_env_upload_fails False False None)))
       = {''C/Pictures/b'', ''C/Pictures/a''}
   \<and> outcome_path ` set (outcomes (final (projr (backup_run ex_env_upload_fails False False None))))
       = {''C/Pictures/b'', ''C/Pictures/a''}
   \<and> outcomes (final (projr (backup_run ex_env_upload_fails False False None))) ! 0
       = Failed ''C/Pictures/b'' ''timeout''"
proof -
  let ?r = "projr (backup_run ex_env_unreadable False False None)"
  let ?v = "projr (backup_run ex_env_upload_fails False False None)"
  have r: "backup_run ex_env_unreadable False False None = Inr ?r"
    and v: "backup_run ex_env_upload_fails False False None = Inr ?v"
    by (simp_all add: backup_run_None)
  have l: "dict_of (load_hash_db None) = Inr Map.empty"
    by (simp add: dict_of_def load_hash_db_def)
  have c: "candidates ?r = [(''C/Pictures/b'', ''MAIN''), (''C/Pictures/a'', ''MAIN'')]"
    unfolding ex_eval by code_simp
  have i: "\<not> rep_interrupted (the_report ?r)"
    unfolding ex_eval by code_simp
  have h: "sha256_of ex_env_unreadable ''C/Pictures/b'' = Inl ''denied''"
    "sha256_of ex_env_unreadable ''C/Pictures/a'' = Inr ''H2''"
    "\<forall>k. upload_file ex_env_unreadable ''C/Pictures/a'' k = None"
    by (simp_all add: ex_env_unreadable_def ex_env_def)
  have hyp: "\<not> rep_interrupted (the_report ?r)
            \<and> distinct (map fst (candidates ?r))
            \<and> ''C/Pictures/b'' \<in> fst ` set (candidates ?r)
            \<and> sha256_of ex_env_unreadable ''C/Pictures/b'' = Inl ''denied''
            \<and> (\<forall>(p, d) \<in> set (candidates ?r). p \<noteq> ''C/Pictures/b'' \<longrightarrow>
                  (\<exists>h. sha256_of ex_env_unreadable p = Inr h)
                  \<and> (False \<or> (\<forall>k. upload_file ex_env_unreadable p k = None)))"
    using i h unfolding c by simp
  note t = failure_isolation
    [where E = ex_env_unreadable and dry_run = False and flag = False and ledger_file = None
       and u = "''C/Pictures/b''" and err = "''denied''", OF l, THEN conjunct1, rule_format,
     OF r]
  note t7 = t [THEN conjunct2, THEN conjunct2, THEN conjunct2, THEN conjunct2, THEN conjunct2,
      THEN conjunct2]
  have 1: "length (outcomes (final ?r)) = length (candidates ?r)
              \<and> filter is_Failed (outcomes (final ?r)) = [Failed ''C/Pictures/b'' ''denied'']
              \<and> length (filter (\<lambda>x. \<not> is_Failed x) (outcomes (final ?r)))
                  = length (candidates ?r) - 1"
    using t7 hyp by (rule mp)
  have "Failed ''C/Pictures/b'' ''denied'' \<in> set (filter is_Failed (outcomes (final ?r)))"
    using 1 by simp
  then have m: "Failed ''C/Pictures/b'' ''denied'' \<in> set (outcomes (final ?r))"
    by simp
  have 2: "updated_hashes (final ?r) ''C/Pictures/b'' = Map.empty ''C/Pictures/b''"
    using t [THEN conjunct1, rule_format, OF m] by simp
  note w = failure_isolation
    [where E = ex_env_upload_fails and dry_run = False and flag = False and ledger_file = None,
     OF l, THEN conjunct1, rule_format, OF v]
  have cv: "candidates ?v = [(''C/Pictures/b'', ''MAIN''), (''C/Pictures/a'', ''MAIN'')]"
    unfolding ex_eval by code_simp
  have iv: "\<not> rep_interrupted (the_report ?v)"
    unfolding ex_eval by code_simp
  have ov: "outcomes (final ?v) ! 0 = Failed ''C/Pictures/b'' ''timeout''"
    unfolding ex_eval by code_simp
  have 3: "seen_paths (final ?v) = fst ` set (candidates ?v)"
    using w [THEN conjunct2, THEN conjunct2, THEN conjunct2, THEN conjunct2, THEN conjunct2,
      THEN conjunct1] iv by (rule mp)
  have 4: "outcome_path ` set (outcomes (final ?v)) = seen_paths (final ?v)"
    by (rule w [THEN conjunct2, THEN conjunct2, THEN conjunct2, THEN conjunct1])
  show ?thesis
    using 1 2 3 4 ov unfolding c cv by simp
qed

text \<open>
  The claim C4 as stated fails: in \<open>ex_env_unreadable_upload_fails\<close> the run is not
  interrupted, exactly one of the two candidates cannot be read, the upload of the other
  raises, and none of the two outcomes is a success.
\<close>

theorem failure_isolation_counterexample:
  "isl (backup_run ex_env_unreadable_upload_fails False False None) = False
   \<and> candidates (projr (backup_run ex_env_unreadable_upload_fails False False None))
     = [(''C/Pictures/b'', ''MAIN''), (''C/Pictures/a'', ''MAIN'')]
   \<and> sha256_of ex_env_unreadable_upload_fails ''C/Pictures/b'' = Inl ''denied''
   \<and> sha256_of ex_env_unreadable_upload_fails ''C/Pictures/a'' = Inr ''H2''
   \<and> rep_interrupted (the_report (projr (backup_run ex_env_unreadable_upload_fails False False
        None))) = False
   \<and> outcomes (final (projr (backup_run ex_env_unreadable_upload_fails False False None)))
       = [Failed ''C/Pictures/b'' ''denied'', Failed ''C/Pictures/a'' ''timeout'']"
  unfolding ex_eval by code_simp

text \<open>
  C2 (as amended). Let run one be a run with dry-run mode off that returns, is not
  interrupted and records no error, and let run two see the same candidates with the same
  content and load the ledger file that run one left. Then run two returns, every outcome
  of run two is \<open>SkippedUnchanged\<close>, every file that run two processes has such an
  outcome, nothing is uploaded, and the working ledger of run two is the ledger of run
  one.
\<close>

theorem second_run_only_skips:
  assumes "backup_run E1 False flag1 ledger_file = Inr r1"
    and "\<not> rep_interrupted (the_report r1)"
    and "rep_errors (the_report r1) = []"
    and "gather_candidate_files E2 = gather_candidate_files E1"
    and "sha256_of E2 = sha256_of E1"
  shows "\<exists>r2. backup_run E2 dry_run2 flag2 (hash_db_file r1) = Inr r2
       \<and> (\<forall>x \<in> set (outcomes (final r2)). \<exists>p. x = SkippedUnchanged p)
       \<and> outcome_path ` set (outcomes (final r2)) = seen_paths (final r2)
       \<and> filter is_upload (outcomes (final r2)) = []
       \<and> uploaded_keys (final r2) = []
       \<and> (\<forall>p k. UploadFile p k \<notin> set (remote_calls (final r2)))
       \<and> updated_hashes (final r2) = updated_hashes (final r1)"
proof -
  let ?cs = "dict_fromkeys (gather_candidate_files E1)"
  from assms(1) obtain d1 where
    r1: "r1 = finish_run E1 False ledger_file ?cs (run_loop E1 False flag1 d1)"
    by (rule backup_run_Inr)
  let ?L1 = "run_loop E1 False flag1 d1"
  let ?ph2 = "updated_hashes ?L1"
  let ?r2 = "finish_run E2 dry_run2 (hash_db_file r1) ?cs (run_loop E2 dry_run2 flag2 ?ph2)"
  have ni: "\<not> interrupted ?L1"
    using assms(2) unfolding r1 by (simp add: finish_run_report finish_run_fields)
  have ne: "errors ?L1 = []" and sv: "save_error E1 = None"
    using assms(3) unfolding r1
    by (simp_all add: finish_run_report finish_run_fields split: option.splits)
  have f: "hash_db_file r1 = Some (LoadedDict ?ph2)"
    unfolding r1 using sv by (simp add: finish_run_file)
  have ld: "load_hash_db (hash_db_file r1) = LoadedDict ?ph2"
    unfolding f by (simp add: load_hash_db_def)
  have run2: "backup_run E2 dry_run2 flag2 (hash_db_file r1) = Inr ?r2"
    using backup_run_LoadedDict [OF ld, of E2 dry_run2 flag2] unfolding assms(4) .
  have seen: "fst ` set ?cs \<subseteq> seen_paths ?L1"
    using ni unfolding run_loop_def by (rule process_loop_dict_all_seen)
  have "clean_inv E1 ?L1" by (rule clean_inv_run_loop)
  then have known: "\<forall>p \<in> seen_paths ?L1. \<exists>h. sha256_of E1 p = Inr h \<and> ?ph2 p = Some h"
    using ne unfolding clean_inv_def by blast
  have cand: "\<forall>(p, d) \<in> set ?cs. \<exists>h. sha256_of E2 p = Inr h \<and> ?ph2 p = Some h"
    using seen known unfolding assms(5) by force
  have "idle_inv ?ph2 (init_state flag2 ?ph2)"
    by (simp add: idle_inv_def init_state_def)
  then have "idle_inv ?ph2
      (process_loop_dict E2 dry_run2 ?ph2 (length ?cs) 1 ?cs (init_state flag2 ?ph2))"
    using cand by (rule idle_inv_process_loop_dict)
  then have idle: "idle_inv ?ph2 (run_loop E2 dry_run2 flag2 ?ph2)"
    unfolding run_loop_def assms(4) .
  have 1: "\<forall>x \<in> set (outcomes (final ?r2)). \<exists>p. x = SkippedUnchanged p"
    and 2: "outcome_path ` set (outcomes (final ?r2)) = seen_paths (final ?r2)"
    and 4: "uploaded_keys (final ?r2) = []"
    using idle unfolding idle_inv_def by (simp_all add: finish_run_fields)
  have 6: "updated_hashes (final ?r2) = updated_hashes (final r1)"
    using idle unfolding idle_inv_def r1 by (simp add: finish_run_fields)
  have 5: "\<forall>p k. UploadFile p k \<notin> set (remote_calls (final ?r2))"
    using idle unfolding idle_inv_def by (simp add: finish_run_fields)
  have 3: "filter is_upload (outcomes (final ?r2)) = []"
    using 1 by (auto simp: filter_empty_conv)
  show ?thesis
    apply (rule exI [where x = ?r2])
    apply (rule conjI, rule run2, rule conjI, rule 1, rule conjI, rule 2, rule conjI, rule 3,
        rule conjI, rule 4, rule conjI, rule 5, rule 6)
    done
qed

theorem second_run_only_skips_witness:
  "filter is_upload (outcomes (final (projr (backup_run ex_env False False
        (hash_db_file (projr (backup_run ex_env False False None))))))) = []
   \<and> uploaded_keys (final (projr (backup_run ex_env False False
        (hash_db_file (projr (backup_run ex_env False False None)))))) = []
   \<and> length (outcomes (final (projr (backup_run ex_env False False
        (hash_db_file (projr (backup_run ex_env False False None))))))) = 2"
proof -
  let ?r1 = "projr (backup_run ex_env False False None)"
  have r: "backup_run ex_env False False None = Inr ?r1"
    by (simp add: backup_run_None)
  have a: "\<not> rep_interrupted (the_report ?r1)"
    unfolding ex_eval by code_simp
  have b: "rep_errors (the_report ?r1) = []"
    unfolding ex_eval by code_simp
  have c: "length (outcomes (final (projr (backup_run ex_env False False
        (hash_db_file ?r1))))) = 2"
    unfolding ex_eval by code_simp
  from second_run_only_skips
    [where ?E1.0 = ex_env and ?E2.0 = ex_env and ?flag1.0 = False and ?flag2.0 = False
       and ledger_file = None and ?dry_run2.0 = False, OF r a b refl refl]
  obtain r2 where r2: "backup_run ex_env False False (hash_db_file ?r1) = Inr r2"
    and u: "filter is_upload (outcomes (final r2)) = []"
    and k: "uploaded_keys (final r2) = []"
    by blast
  have "projr (backup_run ex_env False False (hash_db_file ?r1)) = r2"
    unfolding r2 by simp
  then show ?thesis using u k c by simp
qed

text \<open>
  The claim C2 as stated fails: in run one the upload of \<open>b\<close> raises, so the ledger that
  run one saves has no entry for \<open>b\<close>; run two, over the same files, uploads \<open>b\<close>.
\<close>

theorem second_run_counterexample:
  "gather_candidate_files ex_env = gather_candidate_files ex_env_upload_fails
   \<and> sha256_of ex_env = sha256_of ex_env_upload_fails
   \<and> isl (backup_run ex_env_upload_fails False False None) = False
   \<and> rep_interrupted (the_report (projr (backup_run ex_env_upload_fails False False None)))
       = False
   \<and> isl (backup_run ex_env False False
        (hash_db_file (projr (backup_run ex_env_upload_fails False False None)))) = False
   \<and> outcomes (final (projr (backup_run ex_env False False
        (hash_db_file (projr (backup_run ex_env_upload_fails False False None))))))
      = [Uploaded ''C/Pictures/b'' ''2026/01/01/MAIN/Pictures/b'' 10 ''H1'',
         SkippedDuplicateContent ''C/Pictures/a'' ''2026/01/01/MAIN/Pictures/b'']"
proof -
  have "sha256_of ex_env = sha256_of ex_env_upload_fails"
    by (simp add: ex_env_upload_fails_def)
  moreover have "gather_candidate_files ex_env = gather_candidate_files ex_env_upload_fails"
    by (simp add: gather_ex_env_upload_fails)
  moreover have "isl (backup_run ex_env_upload_fails False False None) = False"
    unfolding ex_eval by simp
  moreover have "rep_interrupted (the_report (projr (backup_run ex_env_upload_fails False False
      None))) = False"
    unfolding ex_eval by code_simp
  moreover have "isl (backup_run ex_env False False
        (hash_db_file (projr (backup_run ex_env_upload_fails False False None)))) = False"
    unfolding ex_eval by code_simp
  moreover have "outcomes (final (projr (backup_run ex_env False False
        (hash_db_file (projr (backup_run ex_env_upload_fails False False None))))))
      = [Uploaded ''C/Pictures/b'' ''2026/01/01/MAIN/Pictures/b'' 10 ''H1'',
         SkippedDuplicateContent ''C/Pictures/a'' ''2026/01/01/MAIN/Pictures/b'']"
    unfolding ex_eval by code_simp
  ultimately show ?thesis by simp
qed

text \<open>
  C1 (as amended). Take a run that starts with an empty ledger, returns and is not
  interrupted, whose candidate list holds two distinct paths \<open>A\<close> and \<open>B\<close> with the same
  hash \<open>H1\<close>, \<open>A\<close> the first candidate with this hash and \<open>B\<close> the second, and in which,
  with dry-run mode off, the upload of \<open>A\<close> does not raise. Then the only outcome for \<open>A\<close>
  is \<open>Uploaded\<close> (\<open>DryUploaded\<close> in dry-run mode) under the key computed for \<open>A\<close>, the
  only outcome for \<open>B\<close> is \<open>SkippedDuplicateContent\<close> with that key, and the ledger at the
  end maps both paths to \<open>H1\<close>.
\<close>

theorem duplicate_content_uploaded_once:
  assumes "backup_run E dry_run flag ledger_file = Inr r"
    and "dict_of (load_hash_db ledger_file) = Inr Map.empty"
    and "candidates r = xs @ (A, dA) # ys @ (B, dB) # zs"
    and "A \<noteq> B"
    and "sha256_of E A = Inr H1" and "sha256_of E B = Inr H1"
    and "\<forall>(p, d) \<in> set (xs @ ys). sha256_of E p \<noteq> Inr H1"
    and "\<not> rep_interrupted (the_report r)"
    and "dry_run \<or> upload_file E A (s3_key_for E (length xs + 1) A dA) = None"
  shows "filter (\<lambda>x. outcome_path x = A) (outcomes (final r))
           = [if dry_run
              then DryUploaded A (s3_key_for E (length xs + 1) A dA) (file_size_of E A) H1
              else Uploaded A (s3_key_for E (length xs + 1) A dA) (file_size_of E A) H1]
       \<and> filter (\<lambda>x. outcome_path x = B) (outcomes (final r))
           = [SkippedDuplicateContent B (s3_key_for E (length xs + 1) A dA)]
       \<and> updated_hashes (final r) A = Some H1
       \<and> updated_hashes (final r) B = Some H1"
proof -
  let ?cs = "xs @ (A, dA) # ys @ (B, dB) # zs"
  let ?s0 = "init_state flag Map.empty"
  from assms(1) obtain d1 where d1: "dict_of (load_hash_db ledger_file) = Inr d1"
    and r1: "r = finish_run E dry_run ledger_file (dict_fromkeys (gather_candidate_files E))
                   (run_loop E dry_run flag d1)"
    by (rule backup_run_Inr)
  have "d1 = Map.empty" using d1 assms(2) by simp
  then have r: "r = finish_run E dry_run ledger_file (dict_fromkeys (gather_candidate_files E))
                   (run_loop E dry_run flag Map.empty)"
    using r1 by simp
  have cs: "dict_fromkeys (gather_candidate_files E) = ?cs"
    using assms(3) unfolding r by (simp add: finish_run_fields)
  have L: "run_loop E dry_run flag Map.empty
           = process_loop_dict E dry_run Map.empty (length ?cs) 1 ?cs ?s0"
    unfolding run_loop_def cs by simp
  have ni: "\<not> interrupted (process_loop_dict E dry_run Map.empty (length ?cs) 1 ?cs ?s0)"
    using assms(8) unfolding r L [symmetric]
    by (simp add: finish_run_report finish_run_fields)
  have s0: "A \<notin> seen_paths ?s0" "B \<notin> seen_paths ?s0" "content_hash_to_s3key ?s0 H1 = None"
    "outcomes ?s0 = []"
    by (simp_all add: init_state_def)
  have pa: "Map.empty A \<noteq> Some H1" by simp
  have up: "dry_run \<or> upload_file E A (s3_key_for E (1 + length xs) A dA) = None"
    using assms(9) by (simp add: add.commute)
  note t = process_loop_dict_first_and_duplicate
    [where E = E and dry = dry_run and ph = Map.empty and tot = "length ?cs" and idx = 1
       and xs = xs and A = A and dA = dA and ys = ys and B = B and dB = dB and zs = zs
       and s = ?s0 and H = H1, OF ni assms(4) assms(5) assms(6) assms(7) s0(1) s0(2) s0(3) pa up]
  show ?thesis
    unfolding r finish_run_fields L using t s0(4) by (simp add: add.commute)
qed

theorem duplicate_content_uploaded_once_witness:
  "filter (\<lambda>x. outcome_path x = ''C/Pictures/b'')
       (outcomes (final (projr (backup_run ex_env False False None))))
     = [Uploaded ''C/Pictures/b'' ''2026/01/01/MAIN/Pictures/b'' 10 ''H1'']
   \<and> filter (\<lambda>x. outcome_path x = ''C/Pictures/a'')
       (outcomes (final (projr (backup_run ex_env False False None))))
     = [SkippedDuplicateContent ''C/Pictures/a'' ''2026/01/01/MAIN/Pictures/b'']
   \<and> updated_hashes (final (projr (backup_run ex_env False False None))) ''C/Pictures/b''
       = Some ''H1''
   \<and> updated_hashes (final (projr (backup_run ex_env False False None))) ''C/Pictures/a''
       = Some ''H1''"
proof -
  let ?r = "projr (backup_run ex_env False False None)"
  have r: "backup_run ex_env False False None = Inr ?r"
    by (simp add: backup_run_None)
  have c: "candidates ?r
       = [] @ (''C/Pictures/b'', ''MAIN'') # [] @ (''C/Pictures/a'', ''MAIN'') # []"
    unfolding ex_eval by code_simp
  have i: "\<not> rep_interrupted (the_report ?r)"
    unfolding ex_eval by code_simp
  have k: "s3_key_for ex_env (length ([] :: (path \<times> string) list) + 1) ''C/Pictures/b'' ''MAIN''
       = ''2026/01/01/MAIN/Pictures/b''"
    unfolding ex_eval by code_simp
  have h: "sha256_of ex_env ''C/Pictures/b'' = Inr ''H1''"
    "sha256_of ex_env ''C/Pictures/a'' = Inr ''H1''"
    "file_size_of ex_env ''C/Pictures/b'' = 10"
    by (simp_all add: ex_env_def file_size_of_def)
  have u: "False \<or> upload_file ex_env ''C/Pictures/b''
      (s3_key_for ex_env (length ([] :: (path \<times> string) list) + 1) ''C/Pictures/b'' ''MAIN'') = None"
    by (simp add: ex_env_def)
  have e: "dict_of (load_hash_db None) = Inr Map.empty"
    by (simp add: dict_of_def load_hash_db_def)
  have o: "\<forall>(p, d) \<in> set ([] @ ([] :: (path \<times> string) list)). sha256_of ex_env p \<noteq> Inr ''H1''"
    by simp
  have n: "''C/Pictures/b'' \<noteq> ''C/Pictures/a''" by simp
  from duplicate_content_uploaded_once
    [where E = ex_env and dry_run = False and flag = False and ledger_file = None
       and xs = "[]" and ys = "[]" and zs = "[]" and A = "''C/Pictures/b''"
       and B = "''C/Pictures/a''" and dA = "''MAIN''" and dB = "''MAIN''" and ?H1.0 = "''H1''",
     OF r e c n h(1) h(2) o i u]
  show ?thesis unfolding k h(3) by simp
qed

text \<open>
  The claim C1 as stated fails: in \<open>ex_env_upload_fails\<close> the ledger is empty, the run is
  not interrupted and the two candidates have the same content, but the upload of the
  first raises: the first is recorded as failed and the second is uploaded.
\<close>

theorem duplicate_content_counterexample:
  "isl (backup_run ex_env_upload_fails False False None) = False
   \<and> candidates (projr (backup_run ex_env_upload_fails False False None))
     = [(''C/Pictures/b'', ''MAIN''), (''C/Pictures/a'', ''MAIN'')]
   \<and> sha256_of ex_env_upload_fails ''C/Pictures/b'' = Inr ''H1''
   \<and> sha256_of ex_env_upload_fails ''C/Pictures/a'' = Inr ''H1''
   \<and> outcomes (final (projr (backup_run ex_env_upload_fails False False None)))
       = [Failed ''C/Pictures/b'' ''timeout'',
          Uploaded ''C/Pictures/a'' ''2026/01/01/MAIN/Pictures/a'' 10 ''H1'']
   \<and> updated_hashes (final (projr (backup_run ex_env_upload_fails False False None)))
        ''C/Pictures/b'' = None"
  unfolding ex_eval by code_simp

end
